theory Spec2Isabelle
  imports Main "HOL-Library.Sublist"
begin

section \<open>Shared vocabulary: exceptions and emitted records\<close>

text \<open>
  Every exception the two modules can raise or catch is a constructor of \<open>error\<close>.
  \<open>OtherError\<close> stands for whatever an opaque collaborator raises.
\<close>

datatype error =
    InvalidSpecifier string
  | InvalidVersion string
  | CalledProcessError int
  | FileNotFoundError
  | JSONDecodeError
  | ValueError
  | NotADirectoryError
  | DirectoryNotEmpty
  | RmtreeOnSymlink
  | RuntimeError string error
  | OtherError string

text \<open>
  The logger's four severities used by the code, and the two presentation channels
  \<open>hint\<close> and \<open>note\<close> of the utilities module.
\<close>

datatype channel = Debug | Info | Warning | Critical | Hint | Note

text \<open>
  An emitted record is a channel with its message. \<open>LogExc c prefix e\<close> is a message
  built as \<^verbatim>\<open>f"prefix{exc}"\<close>: the literal prefix followed by the text of the
  interpolated exception \<open>e\<close>, which is kept as a value.
\<close>

datatype log_entry = Log channel string | LogExc channel string error

definition check_mark :: string where
  "check_mark = [CHR 0xE2, CHR 0x9C, CHR 0x93]"

section \<open>The dependency checker (checker.py)\<close>

subsection \<open>Collection dependencies\<close>

text \<open>
  The \<^verbatim>\<open>packaging\<close> library is a third-party collaborator: the checker only
  constructs a \<^verbatim>\<open>SpecifierSet\<close> and a \<^verbatim>\<open>Version\<close> from strings (either
  constructor may raise) and asks \<^verbatim>\<open>spec.contains(version)\<close>. The three operations
  are parameters of the model.
\<close>

record ('s, 'v) packaging =
  SpecifierSet :: "string \<Rightarrow> 's option"
  Version :: "string \<Rightarrow> 'v option"
  contains :: "'s \<Rightarrow> 'v \<Rightarrow> bool"

text \<open>
  A manifest record as \<^verbatim>\<open>collect_manifests\<close> returns it: only
  \<^verbatim>\<open>details["collection_info"]["version"]\<close> and
  \<^verbatim>\<open>details["collection_info"]["dependencies"]\<close> are read. Dictionaries keep
  insertion order, so both mappings are association lists; \<^verbatim>\<open>dep in collections\<close>
  and \<^verbatim>\<open>collections[dep]\<close> are \<open>map_of\<close>.
\<close>

record manifest =
  version :: string
  dependencies :: "(string \<times> string) list"

type_synonym universe = "(string \<times> manifest) list"

record cstate =
  clog :: "log_entry list"
  missing :: bool

definition emit :: "log_entry \<Rightarrow> cstate \<Rightarrow> cstate" where
  "emit e st = st\<lparr>clog := clog st @ [e]\<rparr>"

definition mismatch_msg :: "string \<Rightarrow> string \<Rightarrow> string \<Rightarrow> string \<Rightarrow> string" where
  "mismatch_msg collection_name dep ver dep_version =
     ''Collection '' @ collection_name @ '' requires '' @ dep @ '' '' @ ver
       @ '' but '' @ dep @ '' '' @ dep_version @ '' is installed.''"

definition satisfied_msg :: "string \<Rightarrow> string \<Rightarrow> string \<Rightarrow> string \<Rightarrow> string" where
  "satisfied_msg collection_name dep ver dep_version =
     check_mark @ '' Collection '' @ collection_name @ '' requires '' @ dep @ '' '' @ ver
       @ '' and '' @ dep @ '' '' @ dep_version @ '' is installed.''"

definition not_installed_msg :: "string \<Rightarrow> string \<Rightarrow> string \<Rightarrow> string" where
  "not_installed_msg collection_name dep ver =
     ''Collection '' @ collection_name @ '' requires '' @ dep @ '' '' @ ver
       @ '' but it is not installed.''"

definition install_hint :: "string \<Rightarrow> string" where
  "install_hint dep = ''Try running `pip4a install '' @ dep @ ''`''"

text \<open>The body of the inner loop (lines 58-85) for one \<open>(dep, version)\<close> item.\<close>

definition check_dep ::
  "('s, 'v) packaging \<Rightarrow> universe \<Rightarrow> string \<Rightarrow> string \<times> string \<Rightarrow> cstate
     \<Rightarrow> error option \<times> cstate" where
  "check_dep P collections collection_name item st =
     (case item of (dep, ver) \<Rightarrow>
        (case SpecifierSet P ver of
           None \<Rightarrow> (Some (InvalidSpecifier ver), st)
         | Some spec \<Rightarrow>
            (case map_of collections dep of
               Some details \<Rightarrow>
                 (case Version P (version details) of
                    None \<Rightarrow> (Some (InvalidVersion (version details)), st)
                  | Some dep_spec \<Rightarrow>
                      if \<not> contains P spec dep_spec
                      then (None,
                        (emit (Log Warning
                           (mismatch_msg collection_name dep ver (version details))) st)
                          \<lparr>missing := True\<rparr>)
                      else (None,
                        emit (Log Debug
                           (satisfied_msg collection_name dep ver (version details))) st))
             | None \<Rightarrow>
                 (None,
                  (emit (Log Hint (install_hint dep))
                     (emit (Log Warning (not_installed_msg collection_name dep ver)) st))
                    \<lparr>missing := True\<rparr>))))"

text \<open>The inner loop: an exception leaves the loop with the state reached so far.\<close>

fun deps_loop ::
  "('s, 'v) packaging \<Rightarrow> universe \<Rightarrow> string \<Rightarrow> (string \<times> string) list \<Rightarrow> cstate
     \<Rightarrow> error option \<times> cstate" where
  "deps_loop P collections collection_name [] st = (None, st)"
| "deps_loop P collections collection_name (item # items) st =
     (case check_dep P collections collection_name item st of
        (Some e, st') \<Rightarrow> (Some e, st')
      | (None, st') \<Rightarrow> deps_loop P collections collection_name items st')"

text \<open>The body of the outer loop (lines 50-85) for one collection.\<close>

definition check_collection ::
  "('s, 'v) packaging \<Rightarrow> universe \<Rightarrow> string \<times> manifest \<Rightarrow> cstate
     \<Rightarrow> error option \<times> cstate" where
  "check_collection P collections entry st =
     (case entry of (collection_name, details) \<Rightarrow>
        (let st1 = emit (Log Debug (''Checking dependencies for '' @ collection_name @ ''.'')) st
         in if dependencies details = []
            then (None,
              emit (Log Debug (''Collection '' @ collection_name @ '' has no dependencies.'')) st1)
            else deps_loop P collections collection_name (dependencies details) st1))"

fun collections_loop ::
  "('s, 'v) packaging \<Rightarrow> universe \<Rightarrow> universe \<Rightarrow> cstate \<Rightarrow> error option \<times> cstate" where
  "collections_loop P collections [] st = (None, st)"
| "collections_loop P collections (entry # entries) st =
     (case check_collection P collections entry st of
        (Some e, st') \<Rightarrow> (Some e, st')
      | (None, st') \<Rightarrow> collections_loop P collections entries st')"

text \<open>
  \<^verbatim>\<open>Checker._collection_deps\<close>. The universe \<open>collections\<close> is what
  \<^verbatim>\<open>collect_manifests\<close> returned. On normal return the \<open>missing\<close> field of the
  state is the value stored in \<^verbatim>\<open>self._collections_missing\<close>.
\<close>

definition collection_deps ::
  "('s, 'v) packaging \<Rightarrow> universe \<Rightarrow> error option \<times> cstate" where
  "collection_deps P collections =
     (case collections_loop P collections collections \<lparr>clog = [], missing = False\<rparr> of
        (Some e, st) \<Rightarrow> (Some e, st)
      | (None, st) \<Rightarrow>
          (None,
           if \<not> missing st
           then emit (Log Note (check_mark @ '' All dependant collections are installed.'')) st
           else st))"

subsection \<open>Python dependencies\<close>

text \<open>
  One entry of the report's \<^verbatim>\<open>install\<close> list: only
  \<^verbatim>\<open>package['metadata']['name']\<close> and \<^verbatim>\<open>package['metadata']['version']\<close>
  are read.
\<close>

record package =
  pkg_name :: string
  pkg_version :: string

text \<open>
  The decoded report: \<open>install = None\<close> when the key is absent. The record type
  stands for documents in the installer's report format; documents of another shape
  (where indexing would raise) are outside the model.
\<close>

record pip_report =
  install :: "package list option"

text \<open>What is at the report path when it is opened.\<close>

datatype report_file = Absent | Undecodable | Decoded pip_report

text \<open>
  The environment of \<^verbatim>\<open>_python_deps\<close>: the outcome of the opaque
  \<^verbatim>\<open>builder_introspect\<close> call (\<open>None\<close> when it returns), the exit status of
  the dry-run command, and the report file as it is after that command.
\<close>

record pyenv =
  introspect :: "error option"
  dry_run_status :: int
  report :: report_file

text \<open>
  Modelled from the spec: \<^verbatim>\<open>subprocess_run\<close> of the utilities module is not among
  the sources; the spec gives it as "run external command(command, verbose) -> exit
  status, raises on non-zero", and the caller catches \<^verbatim>\<open>CalledProcessError\<close>.
\<close>

definition subprocess_run :: "int \<Rightarrow> error option" where
  "subprocess_run status = (if status = 0 then None else Some (CalledProcessError status))"

text \<open>
  Modelled from the spec: \<^verbatim>\<open>oxford_join\<close> of the utilities module is not among
  the sources; the spec says the entries are joined "with natural-language and/comma
  separators (A, B, and C)" and that two entries read \<^verbatim>\<open>x==1.0 and y==2.0\<close>.
\<close>

fun join :: "string \<Rightarrow> string list \<Rightarrow> string" where
  "join sep [] = []"
| "join sep [w] = w"
| "join sep (w # ws) = w @ sep @ join sep ws"

fun oxford_join :: "string list \<Rightarrow> string" where
  "oxford_join [] = []"
| "oxford_join [a] = a"
| "oxford_join [a, b] = a @ '' and '' @ b"
| "oxford_join ws = join '', '' (butlast ws) @ '', and '' @ last ws"

definition requirement :: "package \<Rightarrow> string" where
  "requirement p = pkg_name p @ ''=='' @ pkg_version p"

text \<open>Lines 111-127, once the report has been decoded.\<close>

definition report_findings :: "pip_report \<Rightarrow> bool \<Rightarrow> log_entry list" where
  "report_findings pip_report collections_missing =
     (case install pip_report of
        None \<Rightarrow> [Log Note (check_mark @ '' All Python dependencies are installed.'')]
      | Some pkgs \<Rightarrow>
          if pkgs = []
          then [Log Note (check_mark @ '' All Python dependencies are installed.'')]
          else
            (let missing_reqs = map requirement pkgs
             in [Log Warning (''Missing Python dependencies: '' @ oxford_join missing_reqs),
                 Log Hint (''Try running `pip install '' @ join '' '' missing_reqs @ ''`.'')]
                @ (if collections_missing
                   then [Log Warning
                     ''Python packages required by missing collections are not included.'']
                   else [])))"

text \<open>Lines 108-109: open the report file and decode it.\<close>

definition load_report :: "report_file \<Rightarrow> error + pip_report" where
  "load_report f =
     (case f of
        Absent \<Rightarrow> Inl FileNotFoundError
      | Undecodable \<Rightarrow> Inl JSONDecodeError
      | Decoded r \<Rightarrow> Inr r)"

text \<open>
  \<^verbatim>\<open>Checker._python_deps\<close>: the raised exception, if any, and the records emitted.
\<close>

definition python_deps :: "pyenv \<Rightarrow> bool \<Rightarrow> error option \<times> log_entry list" where
  "python_deps env collections_missing =
     (case introspect env of
        Some e \<Rightarrow> (Some e, [])
      | None \<Rightarrow>
          (let lg = (case subprocess_run (dry_run_status env) of
                       Some exc \<Rightarrow>
                         [LogExc Critical ''Failed to check python dependencies: '' exc]
                     | None \<Rightarrow> [])
           in case load_report (report env) of
                Inl e \<Rightarrow> (Some e, lg)
              | Inr pip_report \<Rightarrow>
                  (None, lg @ report_findings pip_report collections_missing)))"

text \<open>\<^verbatim>\<open>Checker.run\<close>: the second phase reads the flag the first one stored.\<close>

definition checker_run ::
  "('s, 'v) packaging \<Rightarrow> universe \<Rightarrow> pyenv \<Rightarrow> error option \<times> log_entry list" where
  "checker_run P collections env =
     (case collection_deps P collections of
        (Some e, st) \<Rightarrow> (Some e, clog st)
      | (None, st) \<Rightarrow>
          (case python_deps env (missing st) of
             (r, lg) \<Rightarrow> (r, clog st @ lg)))"

section \<open>The uninstaller (uninstaller.py)\<close>

subsection \<open>The collection tree\<close>

text \<open>
  What can be found at a path: a regular file, a directory with its entries, or a
  symbolic link with the node it points to (\<open>None\<close> for a dangling link). A directory
  lists its entries in the order \<^verbatim>\<open>os.listdir\<close> yields them; a name is looked up
  with \<open>map_of\<close>. A link owns its target: targets lie outside the collection tree and
  are shared with no other path of the model.
\<close>

datatype node = File | Dir "(string \<times> node) list" | Link "node option"

text \<open>\<^verbatim>\<open>stat\<close>: follow symbolic links to the node they end at.\<close>

fun resolve :: "node \<Rightarrow> node option" where
  "resolve File = Some File"
| "resolve (Dir es) = Some (Dir es)"
| "resolve (Link None) = None"
| "resolve (Link (Some t)) = resolve t"

text \<open>The entries of the directory a node resolves to.\<close>

definition listing :: "node \<Rightarrow> (string \<times> node) list option" where
  "listing n = (case resolve n of Some (Dir es) \<Rightarrow> Some es | _ \<Rightarrow> None)"

text \<open>Change the entries of the directory a node resolves to.\<close>

fun relist :: "((string \<times> node) list \<Rightarrow> (string \<times> node) list) \<Rightarrow> node \<Rightarrow> node" where
  "relist f File = File"
| "relist f (Dir es) = Dir (f es)"
| "relist f (Link None) = Link None"
| "relist f (Link (Some t)) = Link (Some (relist f t))"

definition delete_entry :: "string \<Rightarrow> (string \<times> node) list \<Rightarrow> (string \<times> node) list" where
  "delete_entry name es = filter (\<lambda>e. fst e \<noteq> name) es"

definition modify_entry ::
  "string \<Rightarrow> (node \<Rightarrow> node) \<Rightarrow> (string \<times> node) list \<Rightarrow> (string \<times> node) list" where
  "modify_entry name f es = map (\<lambda>e. if fst e = name then (fst e, f (snd e)) else e) es"

text \<open>
  The state of the file system is the node at \<^verbatim>\<open>collection_root\<close>, \<open>None\<close> when
  nothing is there. \<open>lstat1 root a\<close> is the node at \<^verbatim>\<open>collection_root / a\<close> and
  \<open>lstat2 root a b\<close> the node at \<^verbatim>\<open>collection_root / a / b\<close>: links are followed
  on the way, not at the last component. The components are plain names (not empty,
  no separator).
\<close>

definition lstat1 :: "node option \<Rightarrow> string \<Rightarrow> node option" where
  "lstat1 root a =
     (case root of
        None \<Rightarrow> None
      | Some r \<Rightarrow> (case listing r of None \<Rightarrow> None | Some es \<Rightarrow> map_of es a))"

definition lstat2 :: "node option \<Rightarrow> string \<Rightarrow> string \<Rightarrow> node option" where
  "lstat2 root a b =
     (case lstat1 root a of
        None \<Rightarrow> None
      | Some n \<Rightarrow> (case listing n of None \<Rightarrow> None | Some es \<Rightarrow> map_of es b))"

text \<open>\<^verbatim>\<open>Path.exists\<close>, \<^verbatim>\<open>Path.is_dir\<close> (both follow links) and
  \<^verbatim>\<open>Path.is_symlink\<close>, on the node found at the path.\<close>

definition path_exists :: "node option \<Rightarrow> bool" where
  "path_exists p = (case p of None \<Rightarrow> False | Some n \<Rightarrow> resolve n \<noteq> None)"

definition is_dir :: "node option \<Rightarrow> bool" where
  "is_dir p = (case p of None \<Rightarrow> False | Some n \<Rightarrow> listing n \<noteq> None)"

definition is_symlink :: "node option \<Rightarrow> bool" where
  "is_symlink p = (case p of Some (Link t) \<Rightarrow> True | _ \<Rightarrow> False)"

text \<open>
  \<^verbatim>\<open>shutil.rmtree\<close> on the node found at a path: it refuses a symbolic link, fails
  on a regular file, and removes a directory with all it holds. \<open>None\<close> means the
  removal goes through.
\<close>

definition rmtree :: "node option \<Rightarrow> error option" where
  "rmtree p =
     (case p of
        None \<Rightarrow> Some FileNotFoundError
      | Some File \<Rightarrow> Some NotADirectoryError
      | Some (Dir es) \<Rightarrow> None
      | Some (Link t) \<Rightarrow> Some RmtreeOnSymlink)"

text \<open>\<^verbatim>\<open>Path.rmdir\<close> on the node found at a path: only an empty directory goes.\<close>

definition rmdir :: "node option \<Rightarrow> error option" where
  "rmdir p =
     (case p of
        None \<Rightarrow> Some FileNotFoundError
      | Some File \<Rightarrow> Some NotADirectoryError
      | Some (Dir es) \<Rightarrow> (if es = [] then None else Some DirectoryNotEmpty)
      | Some (Link t) \<Rightarrow> Some NotADirectoryError)"

text \<open>
  \<^verbatim>\<open>collection_namespace_root.rmdir()\<close>: when \<^verbatim>\<open>collection_root\<close> resolves to a
  regular file the path cannot be walked, which is \<open>NotADirectoryError\<close> too.
\<close>

definition rmdir1 :: "node option \<Rightarrow> string \<Rightarrow> error option" where
  "rmdir1 root a =
     (case root of
        None \<Rightarrow> Some FileNotFoundError
      | Some r \<Rightarrow>
          (case resolve r of
             Some File \<Rightarrow> Some NotADirectoryError
           | _ \<Rightarrow> rmdir (lstat1 root a)))"

text \<open>Taking the entry \<open>a\<close>, or the entry \<open>b\<close> of \<open>a\<close>, out of the tree.\<close>

definition remove1 :: "node option \<Rightarrow> string \<Rightarrow> node option" where
  "remove1 root a = map_option (relist (delete_entry a)) root"

definition remove2 :: "node option \<Rightarrow> string \<Rightarrow> string \<Rightarrow> node option" where
  "remove2 root a b = map_option (relist (modify_entry a (relist (delete_entry b)))) root"

subsection \<open>Strings and paths\<close>

text \<open>\<^verbatim>\<open>str.split(sep)\<close> for a one-character separator.\<close>

fun split_on :: "char \<Rightarrow> string \<Rightarrow> string list" where
  "split_on c [] = [[]]"
| "split_on c (x # xs) =
     (if x = c then [] # split_on c xs
      else (case split_on c xs of
              p # ps \<Rightarrow> (x # p) # ps
            | [] \<Rightarrow> [[x]]))"

text \<open>
  \<^verbatim>\<open>namespace, name = collection_name.split(".")\<close>: unpacking anything but two
  parts raises \<open>ValueError\<close>, here \<open>None\<close>.
\<close>

definition split_name :: "string \<Rightarrow> (string \<times> string) option" where
  "split_name collection_name =
     (case split_on (CHR ''.'') collection_name of
        [namespace, name] \<Rightarrow> Some (namespace, name)
      | _ \<Rightarrow> None)"

text \<open>
  \<^verbatim>\<open>PurePath.suffix\<close> of a final component: with \<open>i\<close> the index of the last dot,
  the text from \<open>i\<close> on when \<open>0 < i < len(name) - 1\<close>, else empty.
\<close>

definition path_suffix :: "string \<Rightarrow> string" where
  "path_suffix name =
     (if CHR ''.'' \<in> set name
      then (let ext = rev (takeWhile (\<lambda>c. c \<noteq> CHR ''.'') (rev name));
                i = length name - length ext - 1
            in if 0 < i \<and> ext \<noteq> [] then CHR ''.'' # ext else [])
      else [])"

subsection \<open>The operations\<close>

text \<open>
  The running state: the collection tree, the records emitted, the commands handed to
  \<^verbatim>\<open>subprocess.run\<close>, and the local list \<^verbatim>\<open>collection_namespace_roots\<close> (by the
  name of the namespace).
\<close>

record ustate =
  tree :: "node option"
  ulog :: "log_entry list"
  invoked :: "string list"
  namespace_roots :: "string list"

definition say :: "channel \<Rightarrow> string \<Rightarrow> ustate \<Rightarrow> ustate" where
  "say ch msg st = st\<lparr>ulog := ulog st @ [Log ch msg]\<rparr>"

text \<open>
  What the uninstaller reads from \<^verbatim>\<open>self.app\<close>; only the keys of
  \<^verbatim>\<open>collection_dependencies\<close> are used.
\<close>

record app =
  collection_specifier :: string
  collection_name :: string
  collection_dependencies :: "(string \<times> string) list"

text \<open>
  The surroundings: the two constants \<^verbatim>\<open>C.REQUIREMENTS_PY\<close> and
  \<^verbatim>\<open>C.TEST_REQUIREMENTS_PY\<close> (the constants module is not among the sources, so
  both paths are parameters), the size of the file at a path (\<open>None\<close> when there is
  none), \<^verbatim>\<open>sys.executable\<close>, the first site-packages directory, and the external
  command: its exit status and what it does to the collection tree.
\<close>

record uenv =
  requirements_py :: string
  test_requirements_py :: string
  file_size :: "string \<Rightarrow> nat option"
  executable :: string
  site_packages :: string
  run_command :: "string \<Rightarrow> node option \<Rightarrow> int \<times> node option"

definition collection_root :: "uenv \<Rightarrow> string" where
  "collection_root env = site_packages env @ ''/ansible_collections''"

text \<open>Lines 67-79: remove what is at the collection path.\<close>

definition remove_collection_path ::
  "string \<Rightarrow> string \<Rightarrow> string \<Rightarrow> string \<Rightarrow> ustate \<Rightarrow> error option \<times> ustate" where
  "remove_collection_path root cname namespace name st =
     (let collection_path = root @ ''/'' @ namespace @ ''/'' @ name;
          target = lstat2 (tree st) namespace name
      in if path_exists target
         then
           (let st1 = say Debug (''Exists: '' @ collection_path) st
            in if is_symlink target
               then (None,
                 say Info (''Removed '' @ cname @ '': '' @ collection_path)
                   (st1\<lparr>tree := remove2 (tree st1) namespace name\<rparr>))
               else
                 (case rmtree target of
                    Some e \<Rightarrow> (Some e, st1)
                  | None \<Rightarrow>
                      (None,
                       say Info (''Removed '' @ cname @ '': '' @ collection_path)
                         (st1\<lparr>tree := remove2 (tree st1) namespace name\<rparr>))))
         else (None, say Debug (''Failed to find '' @ cname @ '': '' @ collection_path) st))"

text \<open>
  The test of lines 85-91 on the entry of \<^verbatim>\<open>collection_root\<close> with the given
  name: \<^verbatim>\<open>entry.is_dir()\<close>, \<^verbatim>\<open>entry.name.startswith(collection_name)\<close> and
  \<^verbatim>\<open>entry.suffix == ".info"\<close>.
\<close>

definition is_info_dir :: "string \<Rightarrow> node option \<Rightarrow> string \<Rightarrow> bool" where
  "is_info_dir cname root entry =
     (is_dir (lstat1 root entry) \<and> prefix cname entry \<and> path_suffix entry = ''.info'')"

text \<open>
  Lines 84-94: the loop over the entries of \<^verbatim>\<open>collection_root\<close>. The names were
  listed when the loop started; each entry is examined by its path when its turn
  comes.
\<close>

fun info_loop :: "string \<Rightarrow> string \<Rightarrow> string list \<Rightarrow> ustate \<Rightarrow> error option \<times> ustate" where
  "info_loop root cname [] st = (None, st)"
| "info_loop root cname (entry # entries) st =
     (if is_info_dir cname (tree st) entry
      then
        (case rmtree (lstat1 (tree st) entry) of
           Some e \<Rightarrow> (Some e, st)
         | None \<Rightarrow>
             info_loop root cname entries
               (say Info (''Removed '' @ cname @ ''*.info: '' @ root @ ''/'' @ entry)
                  (st\<lparr>tree := remove1 (tree st) entry\<rparr>)))
      else info_loop root cname entries st)"

text \<open>\<^verbatim>\<open>collection_root.iterdir()\<close>: the names listed in the directory.\<close>

definition iterdir :: "node option \<Rightarrow> string list" where
  "iterdir p =
     (case p of
        None \<Rightarrow> []
      | Some n \<Rightarrow> (case listing n of None \<Rightarrow> [] | Some es \<Rightarrow> map fst es))"

text \<open>Lines 81-94: nothing is scanned when the namespace directory does not exist.\<close>

definition remove_info_dirs ::
  "string \<Rightarrow> string \<Rightarrow> string \<Rightarrow> ustate \<Rightarrow> error option \<times> ustate" where
  "remove_info_dirs root cname namespace st =
     (if \<not> path_exists (lstat1 (tree st) namespace) then (None, st)
      else info_loop root cname (iterdir (tree st)) st)"

text \<open>The body of the first loop (lines 58-94) for one collection name.\<close>

definition remove_one :: "string \<Rightarrow> string \<Rightarrow> ustate \<Rightarrow> error option \<times> ustate" where
  "remove_one root cname st =
     (case split_name cname of
        None \<Rightarrow> (Some ValueError, st)
      | Some (namespace, name) \<Rightarrow>
          (let st1 = st\<lparr>namespace_roots := namespace_roots st @ [namespace]\<rparr>;
               st2 = say Debug
                 (''Checking '' @ cname @ '' at '' @ root @ ''/'' @ namespace @ ''/'' @ name) st1
           in case remove_collection_path root cname namespace name st2 of
                (Some e, st3) \<Rightarrow> (Some e, st3)
              | (None, st3) \<Rightarrow> remove_info_dirs root cname namespace st3))"

fun names_loop :: "string \<Rightarrow> string list \<Rightarrow> ustate \<Rightarrow> error option \<times> ustate" where
  "names_loop root [] st = (None, st)"
| "names_loop root (cname # cnames) st =
     (case remove_one root cname st of
        (Some e, st') \<Rightarrow> (Some e, st')
      | (None, st') \<Rightarrow> names_loop root cnames st')"

text \<open>
  Lines 96-105, for one namespace root: \<open>FileNotFoundError\<close> is passed over, any
  other \<open>OSError\<close> is logged as a warning.
\<close>

definition remove_namespace_root :: "string \<Rightarrow> string \<Rightarrow> ustate \<Rightarrow> ustate" where
  "remove_namespace_root root namespace st =
     (case rmdir1 (tree st) namespace of
        None \<Rightarrow>
          say Info (''Removed collection namespace root: '' @ root @ ''/'' @ namespace)
            (st\<lparr>tree := remove1 (tree st) namespace\<rparr>)
      | Some FileNotFoundError \<Rightarrow> st
      | Some exc \<Rightarrow>
          st\<lparr>ulog := ulog st @
            [LogExc Warning ''Failed to remove collection namespace root: '' exc]\<rparr>)"

text \<open>Lines 107-117: the collection root itself; here a failure is a debug record.\<close>

definition remove_collection_root :: "string \<Rightarrow> ustate \<Rightarrow> ustate" where
  "remove_collection_root root st =
     (if \<not> path_exists (tree st) then st
      else
        (case rmdir (tree st) of
           None \<Rightarrow> say Info (''Removed collection root: '' @ root) (st\<lparr>tree := None\<rparr>)
         | Some FileNotFoundError \<Rightarrow> st
         | Some exc \<Rightarrow>
             st\<lparr>ulog := ulog st @ [LogExc Debug ''Failed to remove collection root: '' exc]\<rparr>))"

text \<open>\<^verbatim>\<open>UnInstaller._remove_collections\<close>.\<close>

definition collection_names :: "app \<Rightarrow> string list" where
  "collection_names a = map fst (collection_dependencies a) @ [collection_name a]"

definition remove_collections :: "uenv \<Rightarrow> app \<Rightarrow> ustate \<Rightarrow> error option \<times> ustate" where
  "remove_collections env a st =
     (case names_loop (collection_root env) (collection_names a) (st\<lparr>namespace_roots := []\<rparr>) of
        (Some e, st1) \<Rightarrow> (Some e, st1)
      | (None, st1) \<Rightarrow>
          (None,
           remove_collection_root (collection_root env)
             (fold (remove_namespace_root (collection_root env)) (namespace_roots st1) st1)))"

text \<open>
  \<^verbatim>\<open>UnInstaller._pip_uninstall\<close>: a failing command becomes a \<open>RuntimeError\<close>
  whose message ends with the text of the caught exception.
\<close>

definition pip_uninstall :: "uenv \<Rightarrow> string \<Rightarrow> ustate \<Rightarrow> error option \<times> ustate" where
  "pip_uninstall env requirements_file st =
     (case file_size env requirements_file of
        None \<Rightarrow>
          (None,
           say Info (''Requirements file '' @ requirements_file @ '' does not exist, skipping'') st)
      | Some st_size \<Rightarrow>
          if st_size = 0
          then (None,
            say Info (''Requirements file '' @ requirements_file @ '' is empty, skipping'') st)
          else
            (let command = executable env @ '' -m pip uninstall -r '' @ requirements_file @ '' -y'';
                 st1 = say Info
                   (''Uninstalling python requirements from '' @ requirements_file) st;
                 st2 = say Debug (''Running command: '' @ command) st1;
                 outcome = run_command env command (tree st2);
                 st3 = st2\<lparr>tree := snd outcome, invoked := invoked st2 @ [command]\<rparr>
             in if fst outcome \<noteq> 0
                then (Some (RuntimeError
                   (''Failed to uninstall requirements from '' @ requirements_file @ '': '')
                   (CalledProcessError (fst outcome))), st3)
                else (None, st3)))"

text \<open>\<^verbatim>\<open>UnInstaller.run\<close>.\<close>

definition uninstaller_run :: "uenv \<Rightarrow> app \<Rightarrow> ustate \<Rightarrow> error option \<times> ustate" where
  "uninstaller_run env a st =
     (if collection_specifier a \<noteq> collection_name a \<and> collection_specifier a \<noteq> ''.''
      then (None,
        say Critical (''Only uninstallation the local collection '' @ collection_name a
          @ '') is supported at this time.'') st)
      else
        (case pip_uninstall env (requirements_py env) st of
           (Some e, st1) \<Rightarrow> (Some e, st1)
         | (None, st1) \<Rightarrow>
             (case pip_uninstall env (test_requirements_py env) st1 of
                (Some e, st2) \<Rightarrow> (Some e, st2)
              | (None, st2) \<Rightarrow> remove_collections env a st2)))"

section \<open>Predicates used in the statements about the checker\<close>

text \<open>
  An inner-loop item parses when its constraint string is accepted and, if the dependency
  is installed, the installed version string is accepted too: these are exactly the two
  constructor calls of lines 59 and 62.
\<close>

definition dep_parses :: "('s, 'v) packaging \<Rightarrow> universe \<Rightarrow> string \<times> string \<Rightarrow> bool" where
  "dep_parses P collections item =
     (SpecifierSet P (snd item) \<noteq> None \<and>
        (case map_of collections (fst item) of
           None \<Rightarrow> True
         | Some details \<Rightarrow> Version P (version details) \<noteq> None))"

definition parses_ok :: "('s, 'v) packaging \<Rightarrow> universe \<Rightarrow> bool" where
  "parses_ok P collections =
     list_all (\<lambda>entry. list_all (dep_parses P collections) (dependencies (snd entry))) collections"

text \<open>
  \<open>h\<close> is the install hint of some item whose dependency is absent from the universe.
\<close>

definition hint_for_absent :: "universe \<Rightarrow> (string \<times> string) list \<Rightarrow> string \<Rightarrow> bool" where
  "hint_for_absent collections items h =
     list_ex (\<lambda>item. map_of collections (fst item) = None \<and> h = install_hint (fst item)) items"

text \<open>
  \<open>e\<close> is the exception a constructor call raises on the item: it carries the rejected
  string and nothing else.
\<close>

definition parse_failure ::
  "('s, 'v) packaging \<Rightarrow> universe \<Rightarrow> string \<times> string \<Rightarrow> error \<Rightarrow> bool" where
  "parse_failure P collections item e =
     ((SpecifierSet P (snd item) = None \<and> e = InvalidSpecifier (snd item)) \<or>
      (case map_of collections (fst item) of
         None \<Rightarrow> False
       | Some details \<Rightarrow>
           Version P (version details) = None \<and> e = InvalidVersion (version details)))"

text \<open>
  Every record on the hint channel belongs to a dependency that is not installed.
\<close>

definition hints_only_for_absent :: "universe \<Rightarrow> log_entry list \<Rightarrow> bool" where
  "hints_only_for_absent collections lg =
     list_all (\<lambda>r. case r of
         Log Hint h \<Rightarrow>
           list_ex (\<lambda>entry. hint_for_absent collections (dependencies (snd entry)) h) collections
       | _ \<Rightarrow> True) lg"


text \<open>
  The records the inner-loop body emits for one item, whatever the state it starts in.
\<close>

definition item_records ::
  "('s, 'v) packaging \<Rightarrow> universe \<Rightarrow> string \<Rightarrow> string \<times> string \<Rightarrow> log_entry list" where
  "item_records P collections cname item =
     clog (snd (check_dep P collections cname item \<lparr>clog = [], missing = False\<rparr>))"

text \<open>
  Where a record of the collection phase can come from: an item of the collection that
  parses, or one of the two debug lines of the outer loop, which name the collection
  only.
\<close>

definition from_items ::
  "('s, 'v) packaging \<Rightarrow> universe \<Rightarrow> string \<Rightarrow> (string \<times> string) list \<Rightarrow> log_entry \<Rightarrow> bool" where
  "from_items P U c items r =
     list_ex (\<lambda>item. dep_parses P U item \<and> r \<in> set (item_records P U c item)) items"

definition from_entry :: "('s, 'v) packaging \<Rightarrow> universe \<Rightarrow> string \<times> manifest \<Rightarrow> log_entry \<Rightarrow> bool" where
  "from_entry P U entry r =
     (r = Log Debug (''Checking dependencies for '' @ fst entry @ ''.'') \<or>
      r = Log Debug (''Collection '' @ fst entry @ '' has no dependencies.'') \<or>
      from_items P U (fst entry) (dependencies (snd entry)) r)"

definition expected_record :: "('s, 'v) packaging \<Rightarrow> universe \<Rightarrow> log_entry \<Rightarrow> bool" where
  "expected_record P collections r =
     list_ex (\<lambda>entry.
        r = Log Debug (''Checking dependencies for '' @ fst entry @ ''.'') \<or>
        r = Log Debug (''Collection '' @ fst entry @ '' has no dependencies.'') \<or>
        list_ex (\<lambda>item. dep_parses P collections item \<and>
                   r \<in> set (item_records P collections (fst entry) item))
          (dependencies (snd entry))) collections"

subsection \<open>Concrete inputs\<close>

text \<open>
  A stand-in for the library, used only to evaluate the checker on concrete universes:
  every string but \<^verbatim>\<open>bad\<close> parses, and a constraint holds exactly the version it
  pins with \<^verbatim>\<open>==\<close>.
\<close>

definition stub_packaging :: "(string, string) packaging" where
  "stub_packaging =
     \<lparr>SpecifierSet = (\<lambda>s. if s = ''bad'' then None else Some s),
      Version = (\<lambda>s. if s = ''bad'' then None else Some s),
      contains = (\<lambda>spec v. spec = ''=='' @ v)\<rparr>"


definition pinned_universe :: "string \<Rightarrow> universe" where
  "pinned_universe ver =
     [(''a.b'', \<lparr>version = ''1.0.0'', dependencies = [(''c.d'', ver)]\<rparr>),
      (''c.d'', \<lparr>version = ''1.0.0'', dependencies = []\<rparr>)]"

definition lone_universe :: "string \<Rightarrow> universe" where
  "lone_universe dep =
     [(''a.b'', \<lparr>version = ''1.0.0'', dependencies = [(dep, ''bad'')]\<rparr>)]"

definition two_entry_report :: pip_report where
  "two_entry_report =
     \<lparr>install = Some [\<lparr>pkg_name = ''x'', pkg_version = ''1.0''\<rparr>,
                      \<lparr>pkg_name = ''y'', pkg_version = ''2.0''\<rparr>]\<rparr>"

definition dry_run_failure :: "int \<Rightarrow> log_entry" where
  "dry_run_failure status =
     LogExc Critical ''Failed to check python dependencies: '' (CalledProcessError status)"

definition bad_version_universe :: universe where
  "bad_version_universe =
     [(''a.b'', \<lparr>version = ''1.0.0'', dependencies = [(''c.d'', ''==1.0.0'')]\<rparr>),
      (''c.d'', \<lparr>version = ''bad'', dependencies = []\<rparr>)]"

section \<open>Predicates used in the statements about the uninstaller\<close>

text \<open>
  The trees on which the body of the first loop raises for a collection name: the name
  does not split in two, or a regular file is at the collection path, or the namespace
  directory exists and one of the install-metadata directories to remove is a symbolic
  link.
\<close>

definition raises_on :: "string \<Rightarrow> node option \<Rightarrow> bool" where
  "raises_on cname t =
     (case split_name cname of
        None \<Rightarrow> True
      | Some (namespace, name) \<Rightarrow>
          lstat2 t namespace name = Some File \<or>
          (path_exists (lstat1 t namespace) \<and>
           list_ex (\<lambda>e. is_info_dir cname t e \<and> is_symlink (lstat1 t e)) (iterdir t)))"


text \<open>
  \<open>shrunk n' n\<close>: the node \<open>n'\<close> is what is left of \<open>n\<close> after entries have been
  removed from directories in it. A node keeps its kind, and every entry still listed
  is what is left of the entry of that name.
\<close>

inductive shrunk :: "node \<Rightarrow> node \<Rightarrow> bool" where
  shrunk_File: "shrunk File File"
| shrunk_Dir:
    "\<forall>a n'. map_of es' a = Some n' \<longrightarrow> (\<exists>n. map_of es a = Some n \<and> shrunk n' n)
       \<Longrightarrow> shrunk (Dir es') (Dir es)"
| shrunk_Dangling: "shrunk (Link None) (Link None)"
| shrunk_Link: "shrunk t' t \<Longrightarrow> shrunk (Link (Some t')) (Link (Some t))"

text \<open>The same for the tree at the collection root, which may be gone altogether.\<close>

definition shrunk_opt :: "node option \<Rightarrow> node option \<Rightarrow> bool" where
  "shrunk_opt r' r =
     (case r' of
        None \<Rightarrow> True
      | Some n' \<Rightarrow> (case r of None \<Rightarrow> False | Some n \<Rightarrow> shrunk n' n))"


text \<open>
  A collection name the path model is exact for: two parts around one dot, neither
  empty, and no path separator.
\<close>

definition plain_name :: "string \<Rightarrow> bool" where
  "plain_name cname =
     (case split_name cname of
        None \<Rightarrow> False
      | Some (namespace, name) \<Rightarrow>
          namespace \<noteq> [] \<and> name \<noteq> [] \<and> CHR ''/'' \<notin> set cname)"

subsection \<open>Concrete inputs\<close>

text \<open>
  An application for a local collection with no dependencies, surroundings with no
  requirements files, and a fresh state on a given tree.
\<close>

definition demo_env :: uenv where
  "demo_env =
     \<lparr>requirements_py = ''requirements.txt'',
      test_requirements_py = ''test-requirements.txt'',
      file_size = (\<lambda>p. None),
      executable = ''python'',
      site_packages = ''/sp'',
      run_command = (\<lambda>command t. (0, t))\<rparr>"

definition demo_app :: "string \<Rightarrow> string \<Rightarrow> app" where
  "demo_app target cname =
     \<lparr>collection_specifier = target, collection_name = cname,
      collection_dependencies = []\<rparr>"

definition fresh :: "node option \<Rightarrow> ustate" where
  "fresh t = \<lparr>tree = t, ulog = [], invoked = [], namespace_roots = []\<rparr>"

text \<open>A tree whose namespace directory holds a metadata-like directory, and one where a
  regular file sits at the collection path.\<close>

definition nested_info_tree :: "node option" where
  "nested_info_tree = Some (Dir [(''ns'', Dir [(''ns.x-1.0.0.info'', Dir [])])])"

definition file_tree :: "node option" where
  "file_tree = Some (Dir [(''ns'', Dir [(''x'', File)])])"

definition installed_tree :: "node option" where
  "installed_tree =
     Some (Dir [(''ns'', Dir [(''x'', Dir [(''README.md'', File)])]),
                (''ns.x-1.0.0.info'', Dir [(''GALAXY.yml'', File)]),
                (''other'', Dir [])])"

section \<open>The checker's loops\<close>

lemma check_dep_ok:
  "dep_parses P U item \<Longrightarrow> fst (check_dep P U c item st) = None"
  by (auto simp: dep_parses_def check_dep_def split: prod.splits option.splits)

lemma check_dep_fails:
  "\<not> dep_parses P U item \<Longrightarrow>
     \<exists>e. fst (check_dep P U c item st) = Some e \<and> parse_failure P U item e"
  by (auto simp: dep_parses_def check_dep_def parse_failure_def split: prod.splits option.splits)

lemma check_dep_error:
  "fst (check_dep P U c item st) = Some e \<Longrightarrow> parse_failure P U item e"
  by (auto simp: check_dep_def parse_failure_def split: prod.splits option.splits if_splits)

lemma check_dep_log_mono:
  "set (clog st) \<subseteq> set (clog (snd (check_dep P U c item st)))"
  by (auto simp: check_dep_def emit_def split: prod.splits option.splits)

lemma check_dep_missing_mono:
  "missing st \<Longrightarrow> missing (snd (check_dep P U c item st))"
  by (auto simp: check_dep_def emit_def split: prod.splits option.splits)

lemma check_dep_mismatch:
  assumes "SpecifierSet P ver = Some s" and "map_of U d = Some dm"
    and "Version P (version dm) = Some v" and "\<not> contains P s v"
  shows "check_dep P U c (d, ver) st =
           (None, st\<lparr>clog := clog st @ [Log Warning (mismatch_msg c d ver (version dm))],
                     missing := True\<rparr>)"
  using assms by (simp add: check_dep_def emit_def)

lemma check_dep_hints:
  "Log Hint h \<in> set (clog (snd (check_dep P U c item st))) \<Longrightarrow>
     Log Hint h \<in> set (clog st) \<or> (map_of U (fst item) = None \<and> h = install_hint (fst item))"
  by (auto simp: check_dep_def emit_def split: prod.splits option.splits if_splits)

lemma deps_loop_ok:
  "list_all (dep_parses P U) items \<Longrightarrow> fst (deps_loop P U c items st) = None"
proof (induction items arbitrary: st)
  case Nil
  then show ?case by simp
next
  case (Cons item items)
  then have "fst (check_dep P U c item st) = None"
    by (simp add: check_dep_ok)
  then obtain st' where "check_dep P U c item st = (None, st')"
    by (cases "check_dep P U c item st") auto
  with Cons show ?case by simp
qed

lemma deps_loop_fails:
  "\<not> list_all (dep_parses P U) items \<Longrightarrow>
     \<exists>e. fst (deps_loop P U c items st) = Some e \<and> (\<exists>item \<in> set items. parse_failure P U item e)"
proof (induction items arbitrary: st)
  case Nil
  then show ?case by simp
next
  case (Cons item items)
  obtain r st' where step: "check_dep P U c item st = (r, st')"
    by (cases "check_dep P U c item st") auto
  show ?case
  proof (cases r)
    case None
    with step have "dep_parses P U item"
      using check_dep_fails [of P U item c st] by auto
    with Cons.prems have "\<not> list_all (dep_parses P U) items" by simp
    from Cons.IH [OF this, of st'] step None show ?thesis by auto
  next
    case (Some e)
    with step have "parse_failure P U item e"
      using check_dep_error [of P U c item st e] by simp
    with step Some show ?thesis by auto
  qed
qed

lemma deps_loop_mono:
  "set (clog st) \<subseteq> set (clog (snd (deps_loop P U c items st))) \<and>
   (missing st \<longrightarrow> missing (snd (deps_loop P U c items st)))"
proof (induction items arbitrary: st)
  case Nil
  then show ?case by simp
next
  case (Cons item items)
  obtain r st' where step: "check_dep P U c item st = (r, st')"
    by (cases "check_dep P U c item st") auto
  have m: "set (clog st) \<subseteq> set (clog st')" "missing st \<longrightarrow> missing st'"
    using check_dep_log_mono [of st P U c item] check_dep_missing_mono [of st P U c item] step
    by auto
  show ?case
  proof (cases r)
    case None
    with step Cons.IH [of st'] m show ?thesis by auto
  next
    case (Some e)
    with step m show ?thesis by auto
  qed
qed

lemma deps_loop_mismatch:
  assumes "(d, ver) \<in> set items"
    and "SpecifierSet P ver = Some s" and "map_of U d = Some dm"
    and "Version P (version dm) = Some v" and "\<not> contains P s v"
    and "fst (deps_loop P U c items st) = None"
  shows "Log Warning (mismatch_msg c d ver (version dm))
           \<in> set (clog (snd (deps_loop P U c items st))) \<and>
         missing (snd (deps_loop P U c items st))"
  using assms(1,6)
proof (induction items arbitrary: st)
  case Nil
  then show ?case by simp
next
  case (Cons item items)
  obtain r st' where step: "check_dep P U c item st = (r, st')"
    by (cases "check_dep P U c item st") auto
  with Cons.prems(2) have r: "r = None" by (cases r) auto
  with step have loop: "deps_loop P U c (item # items) st = deps_loop P U c items st'" by simp
  show ?case
  proof (cases "item = (d, ver)")
    case True
    with step check_dep_mismatch [OF assms(2-5), of c st]
    have "Log Warning (mismatch_msg c d ver (version dm)) \<in> set (clog st')" "missing st'"
      by auto
    with deps_loop_mono [of st' P U c items] loop show ?thesis by auto
  next
    case False
    with Cons.prems(1) have "(d, ver) \<in> set items" by simp
    from Cons.IH [OF this, of st'] Cons.prems(2) loop show ?thesis by simp
  qed
qed

lemma deps_loop_hints:
  "Log Hint h \<in> set (clog (snd (deps_loop P U c items st))) \<Longrightarrow>
     Log Hint h \<in> set (clog st) \<or> hint_for_absent U items h"
proof (induction items arbitrary: st)
  case Nil
  then show ?case by simp
next
  case (Cons item items)
  obtain r st' where step: "check_dep P U c item st = (r, st')"
    by (cases "check_dep P U c item st") auto
  have h': "Log Hint h \<in> set (clog st') \<Longrightarrow>
      Log Hint h \<in> set (clog st) \<or> hint_for_absent U (item # items) h"
    using check_dep_hints [of h P U c item st] step by (auto simp: hint_for_absent_def)
  show ?case
  proof (cases r)
    case None
    with step Cons.prems have "Log Hint h \<in> set (clog (snd (deps_loop P U c items st')))"
      by simp
    from Cons.IH [OF this] h' show ?thesis by (auto simp: hint_for_absent_def)
  next
    case (Some e)
    with step Cons.prems h' show ?thesis by simp
  qed
qed


lemma check_collection_ok:
  "list_all (dep_parses P U) (dependencies (snd entry)) \<Longrightarrow>
     fst (check_collection P U entry st) = None"
  by (cases entry) (simp add: check_collection_def Let_def deps_loop_ok)

lemma check_collection_fails:
  "\<not> list_all (dep_parses P U) (dependencies (snd entry)) \<Longrightarrow>
     \<exists>e. fst (check_collection P U entry st) = Some e \<and>
         (\<exists>item \<in> set (dependencies (snd entry)). parse_failure P U item e)"
proof -
  assume bad: "\<not> list_all (dep_parses P U) (dependencies (snd entry))"
  then have ne: "dependencies (snd entry) \<noteq> []" by auto
  obtain c m where entry: "entry = (c, m)" by (cases entry)
  from deps_loop_fails [OF bad] ne entry show ?thesis
    by (simp add: check_collection_def Let_def)
qed

lemma check_collection_mono:
  "set (clog st) \<subseteq> set (clog (snd (check_collection P U entry st))) \<and>
   (missing st \<longrightarrow> missing (snd (check_collection P U entry st)))"
proof -
  obtain c m where entry: "entry = (c, m)" by (cases entry)
  let ?st1 = "emit (Log Debug (''Checking dependencies for '' @ c @ ''.'')) st"
  have "set (clog st) \<subseteq> set (clog ?st1)" "missing ?st1 = missing st"
    by (auto simp: emit_def)
  with deps_loop_mono [of ?st1 P U c "dependencies m"] entry show ?thesis
    by (auto simp: check_collection_def Let_def emit_def)
qed

lemma check_collection_mismatch:
  assumes "(d, ver) \<in> set (dependencies m)"
    and "SpecifierSet P ver = Some s" and "map_of U d = Some dm"
    and "Version P (version dm) = Some v" and "\<not> contains P s v"
    and "fst (check_collection P U (c, m) st) = None"
  shows "Log Warning (mismatch_msg c d ver (version dm))
           \<in> set (clog (snd (check_collection P U (c, m) st))) \<and>
         missing (snd (check_collection P U (c, m) st))"
proof -
  from assms(1) have ne: "dependencies m \<noteq> []" by auto
  let ?st1 = "emit (Log Debug (''Checking dependencies for '' @ c @ ''.'')) st"
  from ne have eq: "check_collection P U (c, m) st = deps_loop P U c (dependencies m) ?st1"
    by (simp add: check_collection_def Let_def)
  with assms(6) have "fst (deps_loop P U c (dependencies m) ?st1) = None" by simp
  from deps_loop_mismatch [OF assms(1-5) this] eq show ?thesis by simp
qed

lemma check_collection_hints:
  "Log Hint h \<in> set (clog (snd (check_collection P U entry st))) \<Longrightarrow>
     Log Hint h \<in> set (clog st) \<or> hint_for_absent U (dependencies (snd entry)) h"
proof -
  assume h: "Log Hint h \<in> set (clog (snd (check_collection P U entry st)))"
  obtain c m where entry: "entry = (c, m)" by (cases entry)
  let ?st1 = "emit (Log Debug (''Checking dependencies for '' @ c @ ''.'')) st"
  show ?thesis
  proof (cases "dependencies m = []")
    case True
    with h entry show ?thesis by (simp add: check_collection_def Let_def emit_def)
  next
    case False
    with h entry have "Log Hint h \<in> set (clog (snd (deps_loop P U c (dependencies m) ?st1)))"
      by (simp add: check_collection_def Let_def)
    from deps_loop_hints [OF this] entry show ?thesis by (auto simp: emit_def)
  qed
qed

lemma collections_loop_ok:
  "list_all (\<lambda>entry. list_all (dep_parses P U) (dependencies (snd entry))) entries \<Longrightarrow>
     fst (collections_loop P U entries st) = None"
proof (induction entries arbitrary: st)
  case Nil
  then show ?case by simp
next
  case (Cons entry entries)
  then have "fst (check_collection P U entry st) = None"
    by (simp add: check_collection_ok)
  then obtain st' where "check_collection P U entry st = (None, st')"
    by (cases "check_collection P U entry st") auto
  with Cons show ?case by simp
qed

lemma collections_loop_error:
  "fst (collections_loop P U entries st) = Some e \<Longrightarrow>
     \<exists>entry \<in> set entries. \<exists>item \<in> set (dependencies (snd entry)). parse_failure P U item e"
proof (induction entries arbitrary: st)
  case Nil
  then show ?case by simp
next
  case (Cons entry entries)
  obtain r st' where step: "check_collection P U entry st = (r, st')"
    by (cases "check_collection P U entry st") auto
  show ?case
  proof (cases r)
    case None
    with step Cons.prems have "fst (collections_loop P U entries st') = Some e" by simp
    from Cons.IH [OF this] show ?thesis by auto
  next
    case (Some e')
    with step Cons.prems have e': "e' = e" by simp
    have "\<not> list_all (dep_parses P U) (dependencies (snd entry))"
      using check_collection_ok [of P U entry st] step Some by auto
    from check_collection_fails [OF this, of st] step Some e' show ?thesis by auto
  qed
qed

lemma collections_loop_fails:
  "\<not> list_all (\<lambda>entry. list_all (dep_parses P U) (dependencies (snd entry))) entries \<Longrightarrow>
     \<exists>e. fst (collections_loop P U entries st) = Some e"
proof (induction entries arbitrary: st)
  case Nil
  then show ?case by simp
next
  case (Cons entry entries)
  obtain r st' where step: "check_collection P U entry st = (r, st')"
    by (cases "check_collection P U entry st") auto
  show ?case
  proof (cases r)
    case None
    with step have "list_all (dep_parses P U) (dependencies (snd entry))"
      using check_collection_fails [of P U entry st] by auto
    with Cons.prems
    have "\<not> list_all (\<lambda>entry. list_all (dep_parses P U) (dependencies (snd entry))) entries"
      by simp
    from Cons.IH [OF this, of st'] step None show ?thesis by simp
  next
    case (Some e)
    with step show ?thesis by simp
  qed
qed

lemma collections_loop_mono:
  "set (clog st) \<subseteq> set (clog (snd (collections_loop P U entries st))) \<and>
   (missing st \<longrightarrow> missing (snd (collections_loop P U entries st)))"
proof (induction entries arbitrary: st)
  case Nil
  then show ?case by simp
next
  case (Cons entry entries)
  obtain r st' where step: "check_collection P U entry st = (r, st')"
    by (cases "check_collection P U entry st") auto
  have m: "set (clog st) \<subseteq> set (clog st')" "missing st \<longrightarrow> missing st'"
    using check_collection_mono [of st P U entry] step by auto
  show ?case
  proof (cases r)
    case None
    with step Cons.IH [of st'] m show ?thesis by auto
  next
    case (Some e)
    with step m show ?thesis by auto
  qed
qed

lemma collections_loop_mismatch:
  assumes "(c, m) \<in> set entries" and "(d, ver) \<in> set (dependencies m)"
    and "SpecifierSet P ver = Some s" and "map_of U d = Some dm"
    and "Version P (version dm) = Some v" and "\<not> contains P s v"
    and "fst (collections_loop P U entries st) = None"
  shows "Log Warning (mismatch_msg c d ver (version dm))
           \<in> set (clog (snd (collections_loop P U entries st))) \<and>
         missing (snd (collections_loop P U entries st))"
  using assms(1,7)
proof (induction entries arbitrary: st)
  case Nil
  then show ?case by simp
next
  case (Cons entry entries)
  obtain r st' where step: "check_collection P U entry st = (r, st')"
    by (cases "check_collection P U entry st") auto
  with Cons.prems(2) have r: "r = None" by (cases r) auto
  with step have loop:
    "collections_loop P U (entry # entries) st = collections_loop P U entries st'" by simp
  show ?case
  proof (cases "entry = (c, m)")
    case True
    with step r have "fst (check_collection P U (c, m) st) = None" by simp
    from check_collection_mismatch [OF assms(2-6) this] step True
    have "Log Warning (mismatch_msg c d ver (version dm)) \<in> set (clog st')" "missing st'"
      by auto
    with collections_loop_mono [of st' P U entries] loop show ?thesis by auto
  next
    case False
    with Cons.prems(1) have "(c, m) \<in> set entries" by simp
    from Cons.IH [OF this, of st'] Cons.prems(2) loop show ?thesis by simp
  qed
qed

lemma collections_loop_hints:
  "Log Hint h \<in> set (clog (snd (collections_loop P U entries st))) \<Longrightarrow>
     Log Hint h \<in> set (clog st) \<or>
     list_ex (\<lambda>entry. hint_for_absent U (dependencies (snd entry)) h) entries"
proof (induction entries arbitrary: st)
  case Nil
  then show ?case by simp
next
  case (Cons entry entries)
  obtain r st' where step: "check_collection P U entry st = (r, st')"
    by (cases "check_collection P U entry st") auto
  have h': "Log Hint h \<in> set (clog st') \<Longrightarrow>
      Log Hint h \<in> set (clog st) \<or> hint_for_absent U (dependencies (snd entry)) h"
    using check_collection_hints [of h P U entry st] step by auto
  show ?case
  proof (cases r)
    case None
    with step Cons.prems
    have "Log Hint h \<in> set (clog (snd (collections_loop P U entries st')))" by simp
    from Cons.IH [OF this] h' show ?thesis by auto
  next
    case (Some e)
    with step Cons.prems h' show ?thesis by auto
  qed
qed

lemma hints_only_for_absentI:
  assumes "\<And>h. Log Hint h \<in> set lg \<Longrightarrow>
     list_ex (\<lambda>entry. hint_for_absent U (dependencies (snd entry)) h) U"
  shows "hints_only_for_absent U lg"
  unfolding hints_only_for_absent_def list_all_iff
proof
  fix r assume r: "r \<in> set lg"
  show "case r of
         Log Hint h \<Rightarrow> list_ex (\<lambda>entry. hint_for_absent U (dependencies (snd entry)) h) U
       | _ \<Rightarrow> True"
  proof (cases r)
    case (Log ch h)
    with r assms show ?thesis by (cases ch) auto
  next
    case (LogExc ch p e)
    then show ?thesis by simp
  qed
qed

subsection \<open>Where the records of the collection phase come from\<close>

lemma check_dep_raise_keeps_state:
  "fst (check_dep P U c item st) \<noteq> None \<Longrightarrow> snd (check_dep P U c item st) = st"
  by (auto simp: check_dep_def split: prod.splits option.splits if_splits)

lemma check_dep_records:
  "clog (snd (check_dep P U c item st)) = clog st @ item_records P U c item"
  by (auto simp: check_dep_def item_records_def emit_def split: prod.splits option.splits)

lemma check_dep_origin:
  assumes "r \<in> set (clog (snd (check_dep P U c item st)))"
  shows "r \<in> set (clog st) \<or> (dep_parses P U item \<and> r \<in> set (item_records P U c item))"
proof (cases "dep_parses P U item")
  case True
  with assms show ?thesis by (auto simp: check_dep_records)
next
  case False
  then have "fst (check_dep P U c item st) \<noteq> None"
    using check_dep_fails [of P U item c st] by auto
  from check_dep_raise_keeps_state [OF this] assms show ?thesis by simp
qed

lemma deps_loop_origin:
  "r \<in> set (clog (snd (deps_loop P U c items st))) \<Longrightarrow>
     r \<in> set (clog st) \<or> from_items P U c items r"
proof (induction items arbitrary: st)
  case Nil
  then show ?case by simp
next
  case (Cons item items)
  obtain x st' where step: "check_dep P U c item st = (x, st')"
    by (cases "check_dep P U c item st") auto
  have h: "r \<in> set (clog st') \<Longrightarrow> r \<in> set (clog st) \<or> from_items P U c (item # items) r"
    using check_dep_origin [of r P U c item st] step by (auto simp: from_items_def)
  show ?case
  proof (cases x)
    case None
    with step Cons.prems have "r \<in> set (clog (snd (deps_loop P U c items st')))" by simp
    from Cons.IH [OF this] h show ?thesis by (auto simp: from_items_def)
  next
    case (Some e)
    with step Cons.prems h show ?thesis by simp
  qed
qed

lemma check_collection_origin:
  assumes "r \<in> set (clog (snd (check_collection P U entry st)))"
  shows "r \<in> set (clog st) \<or> from_entry P U entry r"
proof -
  obtain c m where entry: "entry = (c, m)" by (cases entry)
  let ?st1 = "emit (Log Debug (''Checking dependencies for '' @ c @ ''.'')) st"
  show ?thesis
  proof (cases "dependencies m = []")
    case True
    with assms entry show ?thesis
      by (auto simp: check_collection_def Let_def emit_def from_entry_def)
  next
    case False
    with assms entry have "r \<in> set (clog (snd (deps_loop P U c (dependencies m) ?st1)))"
      by (simp add: check_collection_def Let_def)
    from deps_loop_origin [OF this] entry show ?thesis
      by (auto simp: emit_def from_entry_def)
  qed
qed

lemma collections_loop_origin:
  "r \<in> set (clog (snd (collections_loop P U entries st))) \<Longrightarrow>
     r \<in> set (clog st) \<or> list_ex (\<lambda>entry. from_entry P U entry r) entries"
proof (induction entries arbitrary: st)
  case Nil
  then show ?case by simp
next
  case (Cons entry entries)
  obtain x st' where step: "check_collection P U entry st = (x, st')"
    by (cases "check_collection P U entry st") auto
  have h: "r \<in> set (clog st') \<Longrightarrow> r \<in> set (clog st) \<or> from_entry P U entry r"
    using check_collection_origin [of r P U entry st] step by auto
  show ?case
  proof (cases x)
    case None
    with step Cons.prems
    have "r \<in> set (clog (snd (collections_loop P U entries st')))" by simp
    from Cons.IH [OF this] h show ?thesis by auto
  next
    case (Some e)
    with step Cons.prems h show ?thesis by auto
  qed
qed

lemma expected_record_iff:
  "expected_record P U r = list_ex (\<lambda>entry. from_entry P U entry r) U"
  by (simp add: expected_record_def from_entry_def from_items_def)

section \<open>Facts about the collection tree and the uninstaller's loops\<close>

subsection \<open>Nodes and paths\<close>

lemma resolve_relist:
  "resolve (relist f n) = (case resolve n of Some (Dir es) \<Rightarrow> Some (Dir (f es)) | r \<Rightarrow> r)"
  by (induction f n rule: relist.induct) simp_all

lemma listing_relist: "listing (relist f n) = map_option f (listing n)"
  by (simp add: listing_def resolve_relist split: option.splits node.splits)

lemma resolve_relist_None: "(resolve (relist f n) = None) = (resolve n = None)"
  by (simp add: resolve_relist split: option.splits node.splits)

lemma map_of_delete_entry:
  "map_of (delete_entry a es) b = (if b = a then None else map_of es b)"
  by (induction es) (auto simp: delete_entry_def)

lemma map_of_modify_entry:
  "map_of (modify_entry a f es) b = (if b = a then map_option f (map_of es a) else map_of es b)"
  by (induction es) (auto simp: modify_entry_def)

lemma map_fst_modify_entry: "map fst (modify_entry a f es) = map fst es"
  by (simp add: modify_entry_def comp_def)

lemma map_fst_delete_entry: "map fst (delete_entry a es) = filter (\<lambda>b. b \<noteq> a) (map fst es)"
  by (simp add: delete_entry_def filter_map comp_def)

lemma lstat1_remove1: "lstat1 (remove1 root a) b = (if b = a then None else lstat1 root b)"
  by (cases root)
    (auto simp: lstat1_def remove1_def listing_relist map_of_delete_entry split: option.splits)

lemma lstat1_remove2:
  "lstat1 (remove2 root a b) c =
     (if c = a then map_option (relist (delete_entry b)) (lstat1 root a) else lstat1 root c)"
  by (cases root)
    (auto simp: lstat1_def remove2_def listing_relist map_of_modify_entry split: option.splits)

lemma lstat2_remove2:
  "lstat2 (remove2 root a b) a c = (if c = b then None else lstat2 root a c)"
  by (auto simp: lstat2_def lstat1_remove2 listing_relist map_of_delete_entry
      split: option.splits)

lemma lstat2_remove1: "a \<noteq> e \<Longrightarrow> lstat2 (remove1 root e) a c = lstat2 root a c"
  by (simp add: lstat2_def lstat1_remove1)

lemma iterdir_remove1: "iterdir (remove1 root a) = filter (\<lambda>b. b \<noteq> a) (iterdir root)"
  by (cases root)
    (auto simp: iterdir_def remove1_def listing_relist map_fst_delete_entry split: option.splits)

lemma iterdir_remove2: "iterdir (remove2 root a b) = iterdir root"
  by (cases root)
    (auto simp: iterdir_def remove2_def listing_relist map_fst_modify_entry split: option.splits)

lemma path_exists_relist: "path_exists (map_option (relist f) p) = path_exists p"
  by (cases p) (simp_all add: path_exists_def resolve_relist_None)

lemma is_dir_relist: "is_dir (map_option (relist f) p) = is_dir p"
  by (cases p) (simp_all add: is_dir_def listing_relist)

lemma is_symlink_relist: "is_symlink (map_option (relist f) p) = is_symlink p"
proof (cases p)
  case None
  then show ?thesis by simp
next
  case (Some n)
  then show ?thesis
  proof (cases n)
    case (Link t)
    with Some show ?thesis by (cases t) (simp_all add: is_symlink_def)
  qed (simp_all add: is_symlink_def)
qed

subsection \<open>Splitting names\<close>

lemma split_on_not_Nil: "split_on c s \<noteq> []"
  by (induction s) (auto split: list.splits)

lemma length_split_on: "length (split_on c s) = Suc (count_list s c)"
proof (induction s)
  case Nil
  then show ?case by simp
next
  case (Cons x xs)
  then show ?case using split_on_not_Nil [of c xs]
    by (cases "split_on c xs") auto
qed

lemma split_name_Some_iff: "(split_name s \<noteq> None) = (count_list s (CHR ''.'') = 1)"
proof -
  have "(split_name s \<noteq> None) = (length (split_on (CHR ''.'') s) = 2)"
    by (auto simp: split_name_def split: list.splits)
  then show ?thesis by (simp add: length_split_on)
qed

lemma split_on_no_sep: "p \<in> set (split_on c s) \<Longrightarrow> c \<notin> set p"
proof (induction s arbitrary: p)
  case Nil
  then show ?case by simp
next
  case (Cons x xs)
  then show ?case using split_on_not_Nil [of c xs]
    by (cases "split_on c xs") (auto split: if_splits)
qed

lemma split_on_join: "split_on c s = [p, q] \<Longrightarrow> s = p @ c # q"
proof (induction s arbitrary: p)
  case Nil
  then show ?case by simp
next
  case (Cons x xs)
  show ?case
  proof (cases "x = c")
    case True
    with Cons.prems have "p = []" "split_on c xs = [q]" by auto
    moreover from this(2) have "xs = q"
    proof (induction xs arbitrary: q)
      case Nil
      then show ?case by simp
    next
      case (Cons y ys)
      then show ?case using split_on_not_Nil [of c ys]
        by (cases "split_on c ys") (auto split: if_splits)
    qed
    ultimately show ?thesis using True by simp
  next
    case False
    with Cons.prems obtain p' where "split_on c xs = [p', q]" "p = x # p'"
      using split_on_not_Nil [of c xs] by (cases "split_on c xs") auto
    with Cons.IH [of p'] show ?thesis by simp
  qed
qed

lemma split_name_parts:
  assumes "split_name cname = Some (namespace, name)"
  shows "cname = namespace @ CHR ''.'' # name" and "CHR ''.'' \<notin> set namespace"
    and "CHR ''.'' \<notin> set name"
proof -
  from assms have s: "split_on (CHR ''.'') cname = [namespace, name]"
    by (auto simp: split_name_def split: list.splits)
  from split_on_join [OF s] show "cname = namespace @ CHR ''.'' # name" .
  from split_on_no_sep [of namespace "CHR ''.''" cname] s
  show "CHR ''.'' \<notin> set namespace" by simp
  from split_on_no_sep [of name "CHR ''.''" cname] s
  show "CHR ''.'' \<notin> set name" by simp
qed

lemma namespace_no_match:
  assumes "split_name cname = Some (namespace, name)"
  shows "\<not> prefix cname namespace"
proof
  assume "prefix cname namespace"
  then have "length cname \<le> length namespace" by (rule prefix_length_le)
  with split_name_parts(1) [OF assms] show False by simp
qed

subsection \<open>The loop over the entries of the collection root\<close>

lemma tree_say: "tree (say ch msg st) = tree st"
  by (simp add: say_def)

lemma rmtree_is_dir: "is_dir p \<Longrightarrow> (rmtree p = None) = (\<not> is_symlink p)"
  by (auto simp: rmtree_def is_dir_def is_symlink_def listing_def split: option.splits node.splits)

lemma rmtree_is_dir_error: "is_dir p \<Longrightarrow> rmtree p = Some e \<Longrightarrow> e = RmtreeOnSymlink"
  by (auto simp: rmtree_def is_dir_def is_symlink_def listing_def split: option.splits node.splits)

lemma is_info_dir_remove1:
  "is_info_dir cname (remove1 root a) e = (e \<noteq> a \<and> is_info_dir cname root e)"
  by (auto simp: is_info_dir_def lstat1_remove1 is_dir_def)

lemma info_loop_skip:
  "\<not> is_info_dir cname (tree st) entry \<Longrightarrow>
     info_loop root cname (entry # entries) st = info_loop root cname entries st"
  by simp

lemma info_loop_remove:
  "is_info_dir cname (tree st) entry \<Longrightarrow> \<not> is_symlink (lstat1 (tree st) entry) \<Longrightarrow>
     info_loop root cname (entry # entries) st =
       info_loop root cname entries
         (say Info (''Removed '' @ cname @ ''*.info: '' @ root @ ''/'' @ entry)
            (st\<lparr>tree := remove1 (tree st) entry\<rparr>))"
proof -
  assume m: "is_info_dir cname (tree st) entry" and l: "\<not> is_symlink (lstat1 (tree st) entry)"
  then have "is_dir (lstat1 (tree st) entry)" by (simp add: is_info_dir_def)
  with l have "rmtree (lstat1 (tree st) entry) = None" by (simp add: rmtree_is_dir)
  with m show ?thesis by simp
qed

lemma info_loop_raise:
  "is_info_dir cname (tree st) entry \<Longrightarrow> is_symlink (lstat1 (tree st) entry) \<Longrightarrow>
     info_loop root cname (entry # entries) st = (Some RmtreeOnSymlink, st)"
proof -
  assume m: "is_info_dir cname (tree st) entry" and l: "is_symlink (lstat1 (tree st) entry)"
  then have d: "is_dir (lstat1 (tree st) entry)" by (simp add: is_info_dir_def)
  with l obtain e where e: "rmtree (lstat1 (tree st) entry) = Some e"
    using rmtree_is_dir [OF d] by auto
  with rmtree_is_dir_error [OF d e] m show ?thesis by simp
qed

lemma info_loop_raises_iff:
  "(fst (info_loop root cname entries st) \<noteq> None) =
     (\<exists>e \<in> set entries. is_info_dir cname (tree st) e \<and> is_symlink (lstat1 (tree st) e))"
proof (induction entries arbitrary: st)
  case Nil
  then show ?case by simp
next
  case (Cons entry entries)
  show ?case
  proof (cases "is_info_dir cname (tree st) entry")
    case False
    with Cons.IH [of st] show ?thesis by (auto simp: info_loop_skip simp del: info_loop.simps)
  next
    case True
    show ?thesis
    proof (cases "is_symlink (lstat1 (tree st) entry)")
      case link: True
      with True show ?thesis by (simp add: info_loop_raise del: info_loop.simps)
    next
      case nolink: False
      let ?st' = "say Info (''Removed '' @ cname @ ''*.info: '' @ root @ ''/'' @ entry)
                  (st\<lparr>tree := remove1 (tree st) entry\<rparr>)"
      have t: "tree ?st' = remove1 (tree st) entry" by (simp add: tree_say)
      have "(\<exists>e \<in> set entries. is_info_dir cname (tree ?st') e \<and> is_symlink (lstat1 (tree ?st') e)) =
            (\<exists>e \<in> set entries. is_info_dir cname (tree st) e \<and> is_symlink (lstat1 (tree st) e))"
        unfolding t using nolink by (auto simp: is_info_dir_remove1 lstat1_remove1)
      with Cons.IH [of ?st'] info_loop_remove [OF True nolink, of root entries] nolink
      show ?thesis by (auto simp del: info_loop.simps)
    qed
  qed
qed

lemma info_loop_error:
  "fst (info_loop root cname entries st) = Some e \<Longrightarrow> e = RmtreeOnSymlink"
proof (induction entries arbitrary: st)
  case Nil
  then show ?case by simp
next
  case (Cons entry entries)
  show ?case
  proof (cases "is_info_dir cname (tree st) entry")
    case False
    with Cons show ?thesis by (simp add: info_loop_skip del: info_loop.simps)
  next
    case True
    show ?thesis
    proof (cases "is_symlink (lstat1 (tree st) entry)")
      case link: True
      with True Cons.prems show ?thesis by (simp add: info_loop_raise del: info_loop.simps)
    next
      case nolink: False
      with True Cons show ?thesis by (simp add: info_loop_remove del: info_loop.simps)
    qed
  qed
qed

lemma info_loop_iterdir:
  "fst (info_loop root cname entries st) = None \<Longrightarrow>
     iterdir (tree (snd (info_loop root cname entries st))) =
       filter (\<lambda>e. \<not> (e \<in> set entries \<and> is_info_dir cname (tree st) e)) (iterdir (tree st))"
proof (induction entries arbitrary: st)
  case Nil
  then show ?case by simp
next
  case (Cons entry entries)
  show ?case
  proof (cases "is_info_dir cname (tree st) entry")
    case False
    with Cons.prems have "fst (info_loop root cname entries st) = None"
      by (simp add: info_loop_skip del: info_loop.simps)
    from Cons.IH [OF this] False show ?thesis
      by (auto simp: info_loop_skip simp del: info_loop.simps intro!: filter_cong)
  next
    case True
    let ?st' = "say Info (''Removed '' @ cname @ ''*.info: '' @ root @ ''/'' @ entry)
                (st\<lparr>tree := remove1 (tree st) entry\<rparr>)"
    have t: "tree ?st' = remove1 (tree st) entry" by (simp add: tree_say)
    have nolink: "\<not> is_symlink (lstat1 (tree st) entry)"
      using Cons.prems True by (auto simp: info_loop_raise simp del: info_loop.simps)
    have eq: "info_loop root cname (entry # entries) st = info_loop root cname entries ?st'"
      by (rule info_loop_remove [OF True nolink])
    with Cons.prems have "fst (info_loop root cname entries ?st') = None" by simp
    from Cons.IH [OF this]
    have "iterdir (tree (snd (info_loop root cname (entry # entries) st))) =
        filter (\<lambda>e. \<not> (e \<in> set entries \<and> is_info_dir cname (remove1 (tree st) entry) e))
          (filter (\<lambda>b. b \<noteq> entry) (iterdir (tree st)))"
      unfolding eq t by (simp add: iterdir_remove1)
    also have "\<dots> = filter (\<lambda>e. \<not> (e \<in> set (entry # entries) \<and> is_info_dir cname (tree st) e))
          (iterdir (tree st))"
      using True by (auto simp: is_info_dir_remove1 intro!: filter_cong)
    finally show ?thesis .
  qed
qed

lemma info_loop_lstat1:
  "\<not> prefix cname a \<Longrightarrow>
     lstat1 (tree (snd (info_loop root cname entries st))) a = lstat1 (tree st) a"
proof (induction entries arbitrary: st)
  case Nil
  then show ?case by simp
next
  case (Cons entry entries)
  show ?case
  proof (cases "is_info_dir cname (tree st) entry")
    case False
    with Cons show ?thesis by (simp add: info_loop_skip del: info_loop.simps)
  next
    case True
    then have ne: "a \<noteq> entry" using Cons.prems by (auto simp: is_info_dir_def)
    show ?thesis
    proof (cases "is_symlink (lstat1 (tree st) entry)")
      case link: True
      with True show ?thesis by (simp add: info_loop_raise del: info_loop.simps)
    next
      case nolink: False
      with True Cons ne show ?thesis
        by (simp add: info_loop_remove tree_say lstat1_remove1 del: info_loop.simps)
    qed
  qed
qed

subsection \<open>One collection name\<close>

lemma path_exists_lstat1_remove2:
  "path_exists (lstat1 (remove2 t a b) c) = path_exists (lstat1 t c)"
  by (simp add: lstat1_remove2 path_exists_relist)

lemma is_dir_lstat1_remove2: "is_dir (lstat1 (remove2 t a b) c) = is_dir (lstat1 t c)"
  by (simp add: lstat1_remove2 is_dir_relist)

lemma is_symlink_lstat1_remove2:
  "is_symlink (lstat1 (remove2 t a b) c) = is_symlink (lstat1 t c)"
  by (simp add: lstat1_remove2 is_symlink_relist)

lemma is_info_dir_remove2: "is_info_dir cname (remove2 t a b) e = is_info_dir cname t e"
  by (simp add: is_info_dir_def is_dir_lstat1_remove2)

lemma unremovable_iff:
  "(path_exists p \<and> \<not> is_symlink p \<and> rmtree p \<noteq> None) = (p = Some File)"
  by (auto simp: path_exists_def is_symlink_def rmtree_def split: option.splits node.splits)

lemma rmtree_File: "path_exists p \<Longrightarrow> \<not> is_symlink p \<Longrightarrow> rmtree p = Some e \<Longrightarrow>
  e = NotADirectoryError \<and> p = Some File"
  by (auto simp: path_exists_def is_symlink_def rmtree_def split: option.splits node.splits)

lemma remove_collection_path_raises_iff:
  "(fst (remove_collection_path root cname namespace name st) \<noteq> None) =
     (lstat2 (tree st) namespace name = Some File)"
proof -
  let ?p = "lstat2 (tree st) namespace name"
  have "(fst (remove_collection_path root cname namespace name st) \<noteq> None) =
      (path_exists ?p \<and> \<not> is_symlink ?p \<and> rmtree ?p \<noteq> None)"
    by (auto simp: remove_collection_path_def Let_def split: option.splits)
  then show ?thesis by (simp only: unremovable_iff)
qed

lemma remove_collection_path_error:
  "fst (remove_collection_path root cname namespace name st) = Some e \<Longrightarrow>
     e = NotADirectoryError"
  by (auto simp: remove_collection_path_def Let_def dest: rmtree_File
      split: option.splits if_splits)

lemma remove_collection_path_tree:
  "fst (remove_collection_path root cname namespace name st) = None \<Longrightarrow>
     tree (snd (remove_collection_path root cname namespace name st)) =
       (if path_exists (lstat2 (tree st) namespace name)
        then remove2 (tree st) namespace name else tree st)"
  by (auto simp: remove_collection_path_def Let_def tree_say say_def
      split: option.splits if_splits)

lemma remove_collection_path_tree_cases:
  "tree (snd (remove_collection_path root cname namespace name st)) = tree st \<or>
   tree (snd (remove_collection_path root cname namespace name st)) =
     remove2 (tree st) namespace name"
  by (auto simp: remove_collection_path_def Let_def tree_say say_def
      split: option.splits if_splits)

lemma remove_info_dirs_raises_iff:
  "(fst (remove_info_dirs root cname namespace st) \<noteq> None) =
     (path_exists (lstat1 (tree st) namespace) \<and>
      (\<exists>e \<in> set (iterdir (tree st)).
         is_info_dir cname (tree st) e \<and> is_symlink (lstat1 (tree st) e)))"
  using info_loop_raises_iff [of root cname "iterdir (tree st)" st]
  by (simp add: remove_info_dirs_def)

lemma remove_info_dirs_error:
  "fst (remove_info_dirs root cname namespace st) = Some e \<Longrightarrow> e = RmtreeOnSymlink"
  using info_loop_error [of root cname "iterdir (tree st)" st e]
  by (simp add: remove_info_dirs_def split: if_splits)

lemma remove_one_unfold:
  assumes "split_name cname = Some (namespace, name)"
  shows "remove_one root cname st =
    (case remove_collection_path root cname namespace name
       (say Debug (''Checking '' @ cname @ '' at '' @ root @ ''/'' @ namespace @ ''/'' @ name)
          (st\<lparr>namespace_roots := namespace_roots st @ [namespace]\<rparr>)) of
       (Some e, st3) \<Rightarrow> (Some e, st3)
     | (None, st3) \<Rightarrow> remove_info_dirs root cname namespace st3)"
  using assms by (simp add: remove_one_def Let_def)

lemma remove_one_raises_iff:
  "(fst (remove_one root cname st) \<noteq> None) = raises_on cname (tree st)"
proof (cases "split_name cname")
  case None
  then show ?thesis by (simp add: remove_one_def raises_on_def)
next
  case (Some parts)
  obtain namespace name where parts: "parts = (namespace, name)" by (cases parts)
  with Some have sp: "split_name cname = Some (namespace, name)" by simp
  let ?st2 = "say Debug (''Checking '' @ cname @ '' at '' @ root @ ''/'' @ namespace @ ''/'' @ name)
          (st\<lparr>namespace_roots := namespace_roots st @ [namespace]\<rparr>)"
  have t2: "tree ?st2 = tree st" by (simp add: tree_say)
  obtain r st3 where step: "remove_collection_path root cname namespace name ?st2 = (r, st3)"
    by (cases "remove_collection_path root cname namespace name ?st2") auto
  show ?thesis
  proof (cases r)
    case (Some e)
    with step have "fst (remove_collection_path root cname namespace name ?st2) \<noteq> None" by simp
    then have "lstat2 (tree st) namespace name = Some File"
      by (simp only: remove_collection_path_raises_iff t2)
    with step Some sp show ?thesis
      by (simp add: remove_one_unfold raises_on_def)
  next
    case None
    with step have "fst (remove_collection_path root cname namespace name ?st2) = None"
      by simp
    with remove_collection_path_raises_iff [of root cname namespace name ?st2]
    have nf: "lstat2 (tree st) namespace name \<noteq> Some File"
      unfolding t2 by simp
    have "tree st3 = tree st \<or> tree st3 = remove2 (tree st) namespace name"
      using remove_collection_path_tree_cases [of root cname namespace name ?st2] step t2
      by simp
    then have same:
      "path_exists (lstat1 (tree st3) namespace) = path_exists (lstat1 (tree st) namespace)"
      "iterdir (tree st3) = iterdir (tree st)"
      "\<And>e. is_info_dir cname (tree st3) e = is_info_dir cname (tree st) e"
      "\<And>e. is_symlink (lstat1 (tree st3) e) = is_symlink (lstat1 (tree st) e)"
      by (auto simp: path_exists_lstat1_remove2 iterdir_remove2 is_info_dir_remove2
          is_symlink_lstat1_remove2)
    have "remove_one root cname st = remove_info_dirs root cname namespace st3"
      using step None sp by (simp add: remove_one_unfold)
    then have "(fst (remove_one root cname st) \<noteq> None) =
        (path_exists (lstat1 (tree st) namespace) \<and>
         (\<exists>e \<in> set (iterdir (tree st)).
            is_info_dir cname (tree st) e \<and> is_symlink (lstat1 (tree st) e)))"
      by (simp only: remove_info_dirs_raises_iff same)
    with nf sp show ?thesis by (simp add: raises_on_def list_ex_iff)
  qed
qed

lemma remove_one_error:
  "fst (remove_one root cname st) = Some e \<Longrightarrow>
     (split_name cname = None \<and> e = ValueError) \<or>
     (split_name cname \<noteq> None \<and> (e = NotADirectoryError \<or> e = RmtreeOnSymlink))"
proof (cases "split_name cname")
  case None
  assume "fst (remove_one root cname st) = Some e"
  with None show ?thesis by (simp add: remove_one_def)
next
  case (Some parts)
  assume e: "fst (remove_one root cname st) = Some e"
  obtain namespace name where parts: "parts = (namespace, name)" by (cases parts)
  with Some have sp: "split_name cname = Some (namespace, name)" by simp
  let ?st2 = "say Debug (''Checking '' @ cname @ '' at '' @ root @ ''/'' @ namespace @ ''/'' @ name)
          (st\<lparr>namespace_roots := namespace_roots st @ [namespace]\<rparr>)"
  obtain r st3 where step: "remove_collection_path root cname namespace name ?st2 = (r, st3)"
    by (cases "remove_collection_path root cname namespace name ?st2") auto
  show ?thesis
  proof (cases r)
    case (Some e')
    with step e sp have "e' = e" by (simp add: remove_one_unfold)
    with step Some remove_collection_path_error [of root cname namespace name ?st2 e] sp
    show ?thesis by simp
  next
    case None
    with step e sp have "fst (remove_info_dirs root cname namespace st3) = Some e"
      by (simp add: remove_one_unfold)
    from remove_info_dirs_error [OF this] sp show ?thesis by simp
  qed
qed

subsection \<open>Trees after removals\<close>

inductive_cases shrunk_FileE: "shrunk File n"
inductive_cases shrunk_DirE: "shrunk (Dir es') n"
inductive_cases shrunk_LinkE: "shrunk (Link t') n"
inductive_cases shrunk_toFileE: "shrunk n' File"
inductive_cases shrunk_toDirE: "shrunk n' (Dir es)"

lemma shrunk_refl: "shrunk n n"
proof (induction n)
  case File
  show ?case by (rule shrunk_File)
next
  case (Dir es)
  show ?case
  proof (rule shrunk_Dir, intro allI impI)
    fix a n' assume m: "map_of es a = Some n'"
    then have "(a, n') \<in> set es" by (rule map_of_SomeD)
    then have "shrunk n' n'" using Dir by fastforce
    with m show "\<exists>n. map_of es a = Some n \<and> shrunk n' n" by blast
  qed
next
  case (Link t)
  then show ?case by (cases t) (auto intro: shrunk.intros)
qed

lemma shrunk_trans: "shrunk a b \<Longrightarrow> shrunk b c \<Longrightarrow> shrunk a c"
proof (induction a b arbitrary: c rule: shrunk.induct)
  case shrunk_File
  then show ?case by simp
next
  case (shrunk_Dir es' es)
  from shrunk_Dir.prems obtain es2 where c: "c = Dir es2"
    and es2: "\<forall>a n'. map_of es a = Some n' \<longrightarrow> (\<exists>n. map_of es2 a = Some n \<and> shrunk n' n)"
    by (auto elim: shrunk_DirE)
  show ?case unfolding c
  proof (rule shrunk.shrunk_Dir, intro allI impI)
    fix a n' assume "map_of es' a = Some n'"
    with shrunk_Dir.IH obtain n where n: "map_of es a = Some n"
      and ih: "\<And>c. shrunk n c \<Longrightarrow> shrunk n' c" by blast
    from es2 n obtain n2 where "map_of es2 a = Some n2" "shrunk n n2" by blast
    with ih show "\<exists>n. map_of es2 a = Some n \<and> shrunk n' n" by blast
  qed
next
  case shrunk_Dangling
  then show ?case by simp
next
  case (shrunk_Link t' t)
  from shrunk_Link.prems obtain t2 where "c = Link (Some t2)" "shrunk t t2"
    by (auto elim: shrunk_LinkE)
  with shrunk_Link.IH show ?case by (auto intro: shrunk.shrunk_Link)
qed

lemma shrunk_resolve: "shrunk n' n \<Longrightarrow> rel_option shrunk (resolve n') (resolve n)"
proof (induction n' n rule: shrunk.induct)
  case shrunk_File
  show ?case by (simp add: shrunk.shrunk_File)
next
  case (shrunk_Dir es' es)
  then have "shrunk (Dir es') (Dir es)" by (blast intro: shrunk.shrunk_Dir)
  then show ?case by simp
next
  case shrunk_Dangling
  show ?case by simp
next
  case (shrunk_Link t' t)
  then show ?case by simp
qed

lemma shrunk_is_link: "shrunk n' n \<Longrightarrow> (\<exists>t. n' = Link t) = (\<exists>t. n = Link t)"
  by (induction n' n rule: shrunk.induct) auto

lemma shrunk_listing:
  assumes "shrunk n' n" and "listing n' = Some es'"
  shows "\<exists>es. listing n = Some es \<and>
           (\<forall>a m'. map_of es' a = Some m' \<longrightarrow> (\<exists>m. map_of es a = Some m \<and> shrunk m' m))"
proof -
  from assms(2) have r': "resolve n' = Some (Dir es')"
    by (auto simp: listing_def split: option.splits node.splits)
  with shrunk_resolve [OF assms(1)] obtain m where m: "resolve n = Some m" "shrunk (Dir es') m"
    by (auto simp: option_rel_Some1)
  from m(2) obtain es where "m = Dir es"
    "\<forall>a m'. map_of es' a = Some m' \<longrightarrow> (\<exists>m. map_of es a = Some m \<and> shrunk m' m)"
    by (auto elim: shrunk_DirE)
  with m(1) show ?thesis by (simp add: listing_def)
qed

lemma shrunk_opt_refl: "shrunk_opt r r"
  by (cases r) (simp_all add: shrunk_opt_def shrunk_refl)

lemma shrunk_opt_trans: "shrunk_opt a b \<Longrightarrow> shrunk_opt b c \<Longrightarrow> shrunk_opt a c"
  by (auto simp: shrunk_opt_def split: option.splits intro: shrunk_trans)

lemma shrunk_opt_None: "shrunk_opt None r"
  by (simp add: shrunk_opt_def)

lemma lstat1_shrunk:
  assumes "shrunk_opt r' r" and "lstat1 r' a = Some m'"
  shows "\<exists>m. lstat1 r a = Some m \<and> shrunk m' m"
proof -
  from assms(2) obtain n' es' where r': "r' = Some n'" and l': "listing n' = Some es'"
    and a: "map_of es' a = Some m'"
    by (auto simp: lstat1_def split: option.splits)
  with assms(1) obtain n where r: "r = Some n" and s: "shrunk n' n"
    by (auto simp: shrunk_opt_def split: option.splits)
  from shrunk_listing [OF s l'] a r show ?thesis by (auto simp: lstat1_def)
qed

lemma lstat2_shrunk:
  assumes "shrunk_opt r' r" and "lstat2 r' a b = Some m'"
  shows "\<exists>m. lstat2 r a b = Some m \<and> shrunk m' m"
proof -
  from assms(2) obtain n' es' where n': "lstat1 r' a = Some n'" and l': "listing n' = Some es'"
    and b: "map_of es' b = Some m'"
    by (auto simp: lstat2_def split: option.splits)
  from lstat1_shrunk [OF assms(1) n'] obtain n where n: "lstat1 r a = Some n" "shrunk n' n"
    by blast
  from shrunk_listing [OF n(2) l'] b n(1) show ?thesis by (auto simp: lstat2_def)
qed

lemma path_exists_shrunk:
  assumes "shrunk m' m" and "path_exists (Some m')"
  shows "path_exists (Some m)"
  using shrunk_resolve [OF assms(1)] assms(2)
  by (auto simp: path_exists_def elim: option.rel_cases)

lemma is_dir_shrunk:
  assumes "shrunk m' m" and "is_dir (Some m')"
  shows "is_dir (Some m)"
proof -
  from assms(2) obtain es' where "listing m' = Some es'" by (auto simp: is_dir_def)
  from shrunk_listing [OF assms(1) this] show ?thesis by (auto simp: is_dir_def)
qed

lemma is_symlink_shrunk:
  assumes "shrunk m' m" and "is_symlink (Some m')"
  shows "is_symlink (Some m)"
  using shrunk_is_link [OF assms(1)] assms(2)
  by (auto simp: is_symlink_def split: node.splits)

lemma iterdir_lstat1: "e \<in> set (iterdir r) \<Longrightarrow> lstat1 r e \<noteq> None"
proof -
  assume e: "e \<in> set (iterdir r)"
  show ?thesis
  proof (cases r)
    case None
    with e show ?thesis by (simp add: iterdir_def)
  next
    case (Some n)
    show ?thesis
    proof (cases "listing n")
      case None
      with e Some show ?thesis by (simp add: iterdir_def)
    next
      case (Some es)
      with e \<open>r = Some n\<close> have "e \<in> fst ` set es" by (simp add: iterdir_def)
      then have "map_of es e \<noteq> None" by (simp add: map_of_eq_None_iff)
      with Some \<open>r = Some n\<close> show ?thesis by (simp add: lstat1_def)
    qed
  qed
qed

lemma lstat1_iterdir: "lstat1 r e = Some m \<Longrightarrow> e \<in> set (iterdir r)"
  by (auto simp: iterdir_def lstat1_def split: option.splits dest!: map_of_SomeD)
    (metis fst_conv image_eqI)

lemma raises_on_shrunk:
  assumes "shrunk_opt t' t" and "raises_on cname t'"
  shows "raises_on cname t"
proof (cases "split_name cname")
  case None
  then show ?thesis by (simp add: raises_on_def)
next
  case (Some parts)
  obtain namespace name where parts: "parts = (namespace, name)" by (cases parts)
  with Some have sp: "split_name cname = Some (namespace, name)" by simp
  from assms(2) sp consider
    (at_file) "lstat2 t' namespace name = Some File"
    | (at_link) e where "path_exists (lstat1 t' namespace)" "e \<in> set (iterdir t')"
        "is_info_dir cname t' e" "is_symlink (lstat1 t' e)"
    by (auto simp: raises_on_def list_ex_iff)
  then show ?thesis
  proof cases
    case at_file
    from lstat2_shrunk [OF assms(1) at_file] have "lstat2 t namespace name = Some File"
      by (auto elim: shrunk_FileE)
    with sp show ?thesis by (simp add: raises_on_def)
  next
    case at_link
    from at_link(1) obtain n' where n': "lstat1 t' namespace = Some n'"
      by (auto simp: path_exists_def split: option.splits)
    from lstat1_shrunk [OF assms(1) n'] obtain n where n: "lstat1 t namespace = Some n"
      "shrunk n' n" by blast
    from path_exists_shrunk [OF n(2)] at_link(1) n' n(1)
    have ex: "path_exists (lstat1 t namespace)" by simp
    from at_link(4) obtain m' where m': "lstat1 t' e = Some m'"
      by (auto simp: is_symlink_def split: option.splits)
    from lstat1_shrunk [OF assms(1) m'] obtain m where m: "lstat1 t e = Some m"
      "shrunk m' m" by blast
    from at_link(3) m' have "is_dir (Some m')" by (simp add: is_info_dir_def)
    from is_dir_shrunk [OF m(2) this] at_link(3) m(1) have info: "is_info_dir cname t e"
      by (simp add: is_info_dir_def)
    from is_symlink_shrunk [OF m(2)] at_link(4) m' m(1) have sym: "is_symlink (lstat1 t e)"
      by simp
    from lstat1_iterdir [OF m(1)] have "e \<in> set (iterdir t)" .
    with ex info sym sp show ?thesis by (auto simp: raises_on_def list_ex_iff)
  qed
qed

subsection \<open>Every step only removes\<close>

lemma shrunk_relist:
  assumes "\<And>es. \<forall>a n'. map_of (f es) a = Some n' \<longrightarrow> (\<exists>n. map_of es a = Some n \<and> shrunk n' n)"
  shows "shrunk (relist f n) n"
  using assms
proof (induction f n rule: relist.induct)
  case (1 f)
  show ?case by (simp add: shrunk_File)
next
  case (2 f es)
  then show ?case by (simp add: shrunk_Dir)
next
  case (3 f)
  show ?case by (simp add: shrunk_Dangling)
next
  case (4 f t)
  then show ?case by (simp add: shrunk_Link)
qed

lemma shrunk_delete_entry: "shrunk (relist (delete_entry a) n) n"
  by (rule shrunk_relist) (auto simp: map_of_delete_entry shrunk_refl)

lemma shrunk_modify_entry:
  assumes "\<And>m. shrunk (g m) m"
  shows "shrunk (relist (modify_entry a g) n) n"
  by (rule shrunk_relist) (auto simp: map_of_modify_entry shrunk_refl assms)

lemma shrunk_opt_remove1: "shrunk_opt (remove1 r a) r"
  by (cases r) (simp_all add: shrunk_opt_def remove1_def shrunk_delete_entry)

lemma shrunk_opt_remove2: "shrunk_opt (remove2 r a b) r"
  by (cases r)
    (simp_all add: shrunk_opt_def remove2_def shrunk_modify_entry shrunk_delete_entry)

lemma remove_collection_path_shrinks:
  "shrunk_opt (tree (snd (remove_collection_path root cname namespace name st))) (tree st)"
  using remove_collection_path_tree_cases [of root cname namespace name st]
  by (auto simp: shrunk_opt_refl shrunk_opt_remove2)

lemma info_loop_shrinks:
  "shrunk_opt (tree (snd (info_loop root cname entries st))) (tree st)"
proof (induction entries arbitrary: st)
  case Nil
  show ?case by (simp add: shrunk_opt_refl)
next
  case (Cons entry entries)
  show ?case
  proof (cases "is_info_dir cname (tree st) entry")
    case False
    with Cons show ?thesis by (simp add: info_loop_skip del: info_loop.simps)
  next
    case True
    show ?thesis
    proof (cases "is_symlink (lstat1 (tree st) entry)")
      case link: True
      with True show ?thesis by (simp add: info_loop_raise shrunk_opt_refl del: info_loop.simps)
    next
      case nolink: False
      let ?st' = "say Info (''Removed '' @ cname @ ''*.info: '' @ root @ ''/'' @ entry)
                  (st\<lparr>tree := remove1 (tree st) entry\<rparr>)"
      have "shrunk_opt (tree ?st') (tree st)" by (simp add: tree_say shrunk_opt_remove1)
      with Cons.IH [of ?st'] info_loop_remove [OF True nolink, of root entries]
      show ?thesis by (auto intro: shrunk_opt_trans simp del: info_loop.simps)
    qed
  qed
qed

lemma remove_info_dirs_shrinks:
  "shrunk_opt (tree (snd (remove_info_dirs root cname namespace st))) (tree st)"
  by (simp add: remove_info_dirs_def info_loop_shrinks shrunk_opt_refl)

lemma remove_one_shrinks: "shrunk_opt (tree (snd (remove_one root cname st))) (tree st)"
proof (cases "split_name cname")
  case None
  then show ?thesis by (simp add: remove_one_def shrunk_opt_refl)
next
  case (Some parts)
  obtain namespace name where parts: "parts = (namespace, name)" by (cases parts)
  with Some have sp: "split_name cname = Some (namespace, name)" by simp
  let ?st2 = "say Debug (''Checking '' @ cname @ '' at '' @ root @ ''/'' @ namespace @ ''/'' @ name)
          (st\<lparr>namespace_roots := namespace_roots st @ [namespace]\<rparr>)"
  have t2: "tree ?st2 = tree st" by (simp add: tree_say)
  obtain r st3 where step: "remove_collection_path root cname namespace name ?st2 = (r, st3)"
    by (cases "remove_collection_path root cname namespace name ?st2") auto
  have s3: "shrunk_opt (tree st3) (tree st)"
    using remove_collection_path_shrinks [of root cname namespace name ?st2] step t2 by simp
  show ?thesis
  proof (cases r)
    case (Some e)
    with step sp s3 show ?thesis by (simp add: remove_one_unfold)
  next
    case None
    with step sp have "remove_one root cname st = remove_info_dirs root cname namespace st3"
      by (simp add: remove_one_unfold)
    with remove_info_dirs_shrinks [of root cname namespace st3] s3 show ?thesis
      by (auto intro: shrunk_opt_trans)
  qed
qed

lemma names_loop_shrinks: "shrunk_opt (tree (snd (names_loop root cnames st))) (tree st)"
proof (induction cnames arbitrary: st)
  case Nil
  show ?case by (simp add: shrunk_opt_refl)
next
  case (Cons cname cnames)
  obtain r st' where step: "remove_one root cname st = (r, st')"
    by (cases "remove_one root cname st") auto
  have s: "shrunk_opt (tree st') (tree st)"
    using remove_one_shrinks [of root cname st] step by simp
  show ?case
  proof (cases r)
    case None
    with step Cons.IH [of st'] s show ?thesis by (auto intro: shrunk_opt_trans)
  next
    case (Some e)
    with step s show ?thesis by simp
  qed
qed

lemma remove_namespace_root_shrinks:
  "shrunk_opt (tree (remove_namespace_root root namespace st)) (tree st)"
  by (auto simp: remove_namespace_root_def tree_say shrunk_opt_remove1 shrunk_opt_refl
      split: option.splits error.splits)

lemma fold_remove_namespace_root_shrinks:
  "shrunk_opt (tree (fold (remove_namespace_root root) namespaces st)) (tree st)"
proof (induction namespaces arbitrary: st)
  case Nil
  show ?case by (simp add: shrunk_opt_refl)
next
  case (Cons namespace namespaces)
  from Cons.IH [of "remove_namespace_root root namespace st"]
    remove_namespace_root_shrinks [of root namespace st]
  show ?case by (auto intro: shrunk_opt_trans)
qed

lemma remove_collection_root_shrinks:
  "shrunk_opt (tree (remove_collection_root root st)) (tree st)"
  by (auto simp: remove_collection_root_def tree_say shrunk_opt_None shrunk_opt_refl
      split: option.splits error.splits)

lemma names_loop_again:
  assumes "fst (names_loop root cnames st) = None"
    and "shrunk_opt (tree st') (tree (snd (names_loop root cnames st)))"
  shows "fst (names_loop root cnames st') = None"
  using assms
proof (induction cnames arbitrary: st st')
  case Nil
  show ?case by simp
next
  case (Cons cname cnames)
  obtain r st1 where step: "remove_one root cname st = (r, st1)"
    by (cases "remove_one root cname st") auto
  with Cons.prems(1) have r: "r = None" by (cases r) auto
  with step have loop: "names_loop root (cname # cnames) st = names_loop root cnames st1"
    by simp
  with Cons.prems have ok1: "fst (names_loop root cnames st1) = None"
    and below: "shrunk_opt (tree st') (tree (snd (names_loop root cnames st1)))" by simp_all
  from step r have "\<not> raises_on cname (tree st)"
    using remove_one_raises_iff [of root cname st] by simp
  moreover have "shrunk_opt (tree st') (tree st)"
    using below names_loop_shrinks [of root cnames st1] remove_one_shrinks [of root cname st]
      step by (auto intro: shrunk_opt_trans)
  ultimately have "\<not> raises_on cname (tree st')" using raises_on_shrunk by blast
  then have "fst (remove_one root cname st') = None"
    using remove_one_raises_iff [of root cname st'] by simp
  then obtain st1' where step': "remove_one root cname st' = (None, st1')"
    by (cases "remove_one root cname st'") auto
  have "shrunk_opt (tree st1') (tree st')"
    using remove_one_shrinks [of root cname st'] step' by simp
  from this below have "shrunk_opt (tree st1') (tree (snd (names_loop root cnames st1)))"
    by (rule shrunk_opt_trans)
  from Cons.IH [OF ok1 this] step' show ?case by simp
qed

lemma remove_collections_shrinks:
  "shrunk_opt (tree (snd (remove_collections env a st))) (tree st)"
proof -
  let ?root = "collection_root env"
  let ?st0 = "st\<lparr>namespace_roots := []\<rparr>"
  obtain r st1 where loop: "names_loop ?root (collection_names a) ?st0 = (r, st1)"
    by (cases "names_loop ?root (collection_names a) ?st0") auto
  have s1: "shrunk_opt (tree st1) (tree st)"
    using names_loop_shrinks [of ?root "collection_names a" ?st0] loop by simp
  show ?thesis
  proof (cases r)
    case (Some e)
    with loop s1 show ?thesis by (simp add: remove_collections_def)
  next
    case None
    let ?st2 = "fold (remove_namespace_root ?root) (namespace_roots st1) st1"
    have "shrunk_opt (tree (remove_collection_root ?root ?st2)) (tree st1)"
      using remove_collection_root_shrinks [of ?root ?st2]
        fold_remove_namespace_root_shrinks [of ?root "namespace_roots st1" st1]
      by (rule shrunk_opt_trans)
    with s1 None loop show ?thesis
      by (auto simp: remove_collections_def intro: shrunk_opt_trans)
  qed
qed

subsection \<open>The first loop and malformed names\<close>

lemma remove_one_malformed:
  "count_list cname (CHR ''.'') \<noteq> 1 \<Longrightarrow> remove_one root cname st = (Some ValueError, st)"
proof -
  assume "count_list cname (CHR ''.'') \<noteq> 1"
  with split_name_Some_iff [of cname] have "split_name cname = None" by blast
  then show ?thesis by (simp add: remove_one_def)
qed

lemma remove_one_ValueError:
  assumes "count_list cname (CHR ''.'') = 1"
  shows "fst (remove_one root cname st) \<noteq> Some ValueError"
proof
  assume "fst (remove_one root cname st) = Some ValueError"
  from remove_one_error [OF this] have "split_name cname = None" by auto
  with split_name_Some_iff [of cname] assms show False by blast
qed

lemma names_loop_no_ValueError:
  "list_all (\<lambda>n. count_list n (CHR ''.'') = 1) cnames \<Longrightarrow>
     fst (names_loop root cnames st) \<noteq> Some ValueError"
proof (induction cnames arbitrary: st)
  case Nil
  show ?case by simp
next
  case (Cons cname cnames)
  obtain r st' where step: "remove_one root cname st = (r, st')"
    by (cases "remove_one root cname st") auto
  show ?case
  proof (cases r)
    case None
    with step Cons show ?thesis by simp
  next
    case (Some e)
    from Cons.prems have "count_list cname (CHR ''.'') = 1" by simp
    from remove_one_ValueError [OF this, of root st] step Some show ?thesis by simp
  qed
qed

lemma names_loop_malformed:
  "\<not> list_all (\<lambda>n. count_list n (CHR ''.'') = 1) cnames \<Longrightarrow>
     fst (names_loop root cnames st) \<noteq> None"
proof (induction cnames arbitrary: st)
  case Nil
  then show ?case by simp
next
  case (Cons cname cnames)
  obtain r st' where step: "remove_one root cname st = (r, st')"
    by (cases "remove_one root cname st") auto
  show ?case
  proof (cases r)
    case None
    with step have "count_list cname (CHR ''.'') = 1"
      using remove_one_malformed [of cname root st] by auto
    with Cons.prems have "\<not> list_all (\<lambda>n. count_list n (CHR ''.'') = 1) cnames" by simp
    from Cons.IH [OF this, of st'] step None show ?thesis by simp
  next
    case (Some e)
    with step show ?thesis by simp
  qed
qed

lemma all_split:
  "list_all (\<lambda>n. count_list n (CHR ''.'') = 1) cnames \<Longrightarrow>
     list_all (\<lambda>n. split_name n \<noteq> None) cnames"
proof (induction cnames)
  case Nil
  show ?case by simp
next
  case (Cons cname cnames)
  then have "count_list cname (CHR ''.'') = 1" by simp
  with split_name_Some_iff [of cname] have "split_name cname \<noteq> None" by blast
  with Cons show ?case by simp
qed

lemma remove_collections_fst:
  "fst (remove_collections env a st) =
     fst (names_loop (collection_root env) (collection_names a) (st\<lparr>namespace_roots := []\<rparr>))"
  by (cases "names_loop (collection_root env) (collection_names a) (st\<lparr>namespace_roots := []\<rparr>)")
    (auto simp: remove_collections_def split: option.splits)

lemma remove_one_iterdir:
  assumes "split_name cname = Some (namespace, name)"
    and "fst (remove_one root cname st) = None"
  shows "iterdir (tree (snd (remove_one root cname st))) =
           (if path_exists (lstat1 (tree st) namespace)
            then filter (\<lambda>e. \<not> is_info_dir cname (tree st) e) (iterdir (tree st))
            else iterdir (tree st))"
proof -
  let ?st2 = "say Debug (''Checking '' @ cname @ '' at '' @ root @ ''/'' @ namespace @ ''/'' @ name)
          (st\<lparr>namespace_roots := namespace_roots st @ [namespace]\<rparr>)"
  have t2: "tree ?st2 = tree st" by (simp add: tree_say)
  obtain r st3 where step: "remove_collection_path root cname namespace name ?st2 = (r, st3)"
    by (cases "remove_collection_path root cname namespace name ?st2") auto
  with assms have r: "r = None" by (cases r) (auto simp: remove_one_unfold)
  with step assms(1) have eq: "remove_one root cname st = remove_info_dirs root cname namespace st3"
    by (simp add: remove_one_unfold)
  have "tree st3 = tree st \<or> tree st3 = remove2 (tree st) namespace name"
    using remove_collection_path_tree_cases [of root cname namespace name ?st2] step t2
    by simp
  then have same:
    "path_exists (lstat1 (tree st3) namespace) = path_exists (lstat1 (tree st) namespace)"
    "iterdir (tree st3) = iterdir (tree st)"
    "\<And>e. is_info_dir cname (tree st3) e = is_info_dir cname (tree st) e"
    by (auto simp: path_exists_lstat1_remove2 iterdir_remove2 is_info_dir_remove2)
  show ?thesis
  proof (cases "path_exists (lstat1 (tree st) namespace)")
    case False
    with same eq show ?thesis by (simp add: remove_info_dirs_def)
  next
    case True
    with same have eq2: "remove_info_dirs root cname namespace st3 =
        info_loop root cname (iterdir (tree st3)) st3"
      by (simp add: remove_info_dirs_def)
    with eq assms(2) have "fst (info_loop root cname (iterdir (tree st3)) st3) = None" by simp
    from info_loop_iterdir [OF this]
    have "iterdir (tree (snd (remove_one root cname st))) =
        filter (\<lambda>e. \<not> (e \<in> set (iterdir (tree st3)) \<and> is_info_dir cname (tree st3) e))
          (iterdir (tree st3))"
      by (simp add: eq eq2)
    also have "\<dots> = filter (\<lambda>e. \<not> is_info_dir cname (tree st) e) (iterdir (tree st))"
      unfolding same by (rule filter_cong) auto
    finally show ?thesis using True by simp
  qed
qed

lemma remove_one_lstat2:
  assumes "split_name cname = Some (namespace, name)" and "b \<noteq> name"
  shows "lstat2 (tree (snd (remove_one root cname st))) namespace b = lstat2 (tree st) namespace b"
proof -
  let ?st2 = "say Debug (''Checking '' @ cname @ '' at '' @ root @ ''/'' @ namespace @ ''/'' @ name)
          (st\<lparr>namespace_roots := namespace_roots st @ [namespace]\<rparr>)"
  have t2: "tree ?st2 = tree st" by (simp add: tree_say)
  obtain r st3 where step: "remove_collection_path root cname namespace name ?st2 = (r, st3)"
    by (cases "remove_collection_path root cname namespace name ?st2") auto
  have "tree st3 = tree st \<or> tree st3 = remove2 (tree st) namespace name"
    using remove_collection_path_tree_cases [of root cname namespace name ?st2] step t2
    by simp
  with assms(2) have l3: "lstat2 (tree st3) namespace b = lstat2 (tree st) namespace b"
    by (auto simp: lstat2_remove2)
  show ?thesis
  proof (cases r)
    case (Some e)
    with step assms(1) l3 show ?thesis by (simp add: remove_one_unfold)
  next
    case None
    with step assms(1)
    have eq: "remove_one root cname st = remove_info_dirs root cname namespace st3"
      by (simp add: remove_one_unfold)
    have "lstat1 (tree (snd (remove_info_dirs root cname namespace st3))) namespace =
        lstat1 (tree st3) namespace"
      using info_loop_lstat1 [OF namespace_no_match [OF assms(1)], of root "iterdir (tree st3)" st3]
      by (simp add: remove_info_dirs_def)
    then have "lstat2 (tree (snd (remove_info_dirs root cname namespace st3))) namespace b =
        lstat2 (tree st3) namespace b"
      by (simp add: lstat2_def)
    with eq l3 show ?thesis by simp
  qed
qed


section \<open>Claims about the dependency checker\<close>

text \<open>
  C1, as the specification states it: a dependency that is installed at a version outside
  its constraint is reported as a warning and a hint. On the universe where \<open>a.b\<close>
  requires \<open>c.d ==2.0.0\<close> and \<open>c.d 1.0.0\<close> is installed, the run emits the
  warning and sets the flag, but nothing goes to the hint channel.
\<close>

theorem C1_mismatch_hint_counterexample:
  "collection_deps stub_packaging (pinned_universe ''==2.0.0'') =
     (None,
      \<lparr>clog =
         [Log Debug ''Checking dependencies for a.b.'',
          Log Warning ''Collection a.b requires c.d ==2.0.0 but c.d 1.0.0 is installed.'',
          Log Debug ''Checking dependencies for c.d.'',
          Log Debug ''Collection c.d has no dependencies.''],
       missing = True\<rparr>)"
  by (simp add: collection_deps_def pinned_universe_def check_collection_def check_dep_def
      stub_packaging_def emit_def mismatch_msg_def Let_def)

text \<open>
  C1, amended: in a universe whose constraint and version strings all parse, a pair
  \<open>(c, d)\<close> whose dependency \<open>d\<close> is installed at a version outside the
  constraint does not raise; the run returns normally, the warning
  "Collection c requires d ... but d ... is installed." is emitted, the aggregate flag
  is true, and every hint of the run belongs to a dependency that is not installed
  (the mismatch itself gets no hint).
\<close>

theorem C1_mismatch_warns_without_hint:
  assumes "parses_ok P U"
    and "(c, m) \<in> set U" and "(d, ver) \<in> set (dependencies m)"
    and "SpecifierSet P ver = Some s" and "map_of U d = Some dm"
    and "Version P (version dm) = Some v" and "\<not> contains P s v"
  shows "fst (check_dep P U c (d, ver) st) = None \<and>
         fst (collection_deps P U) = None \<and>
         Log Warning (mismatch_msg c d ver (version dm))
           \<in> set (clog (snd (collection_deps P U))) \<and>
         missing (snd (collection_deps P U)) \<and>
         hints_only_for_absent U (clog (snd (collection_deps P U)))"
proof -
  let ?st0 = "\<lparr>clog = [], missing = False\<rparr>"
  obtain st where loop: "collections_loop P U U ?st0 = (None, st)"
    using collections_loop_ok [of P U U ?st0] assms(1)
    by (cases "collections_loop P U U ?st0") (auto simp: parses_ok_def)
  then have none: "fst (collections_loop P U U ?st0) = None" by simp
  from collections_loop_mismatch [OF assms(2-7) none] loop
  have w: "Log Warning (mismatch_msg c d ver (version dm)) \<in> set (clog st)" and m: "missing st"
    by auto
  from m loop have res: "collection_deps P U = (None, st)"
    by (simp add: collection_deps_def)
  have "hints_only_for_absent U (clog st)"
  proof (rule hints_only_for_absentI)
    fix h assume "Log Hint h \<in> set (clog st)"
    with loop have "Log Hint h \<in> set (clog (snd (collections_loop P U U ?st0)))" by simp
    from collections_loop_hints [OF this]
    show "list_ex (\<lambda>entry. hint_for_absent U (dependencies (snd entry)) h) U" by simp
  qed
  with w m res check_dep_mismatch [OF assms(4-7), of c st] show ?thesis
    using check_dep_mismatch [OF assms(4-7)] by simp
qed

text \<open>The amended C1 at the universe of the counterexample.\<close>

theorem C1_mismatch_warns_without_hint_witness:
  "parses_ok stub_packaging (pinned_universe ''==2.0.0'') \<and>
   fst (collection_deps stub_packaging (pinned_universe ''==2.0.0'')) = None \<and>
   Log Warning (mismatch_msg ''a.b'' ''c.d'' ''==2.0.0'' ''1.0.0'')
     \<in> set (clog (snd (collection_deps stub_packaging (pinned_universe ''==2.0.0'')))) \<and>
   missing (snd (collection_deps stub_packaging (pinned_universe ''==2.0.0''))) \<and>
   hints_only_for_absent (pinned_universe ''==2.0.0'')
     (clog (snd (collection_deps stub_packaging (pinned_universe ''==2.0.0''))))"
proof -
  let ?U = "pinned_universe ''==2.0.0''"
  let ?m = "\<lparr>version = ''1.0.0'', dependencies = [(''c.d'', ''==2.0.0'')]\<rparr>"
  let ?dm = "\<lparr>version = ''1.0.0'', dependencies = []\<rparr>"
  have ok: "parses_ok stub_packaging ?U"
    by (simp add: parses_ok_def pinned_universe_def dep_parses_def stub_packaging_def)
  have 1: "(''a.b'', ?m) \<in> set ?U" by (simp add: pinned_universe_def)
  have 2: "(''c.d'', ''==2.0.0'') \<in> set (dependencies ?m)" by simp
  have 3: "SpecifierSet stub_packaging ''==2.0.0'' = Some ''==2.0.0''"
    by (simp add: stub_packaging_def)
  have 4: "map_of ?U ''c.d'' = Some ?dm" by (simp add: pinned_universe_def)
  have 5: "Version stub_packaging (version ?dm) = Some ''1.0.0''"
    by (simp add: stub_packaging_def)
  have 6: "\<not> contains stub_packaging ''==2.0.0'' ''1.0.0''"
    by (simp add: stub_packaging_def)
  from C1_mismatch_warns_without_hint [OF ok 1 2 3 4 5 6] ok show ?thesis by simp
qed

text \<open>
  C2, as the specification states it: a malformed constraint fails the run with a
  diagnostic identifying the offending collection/dependency pair. The run on the
  universe where \<open>a.b\<close> declares the constraint \<^verbatim>\<open>bad\<close> on \<open>c.d\<close> raises
  \<open>InvalidSpecifier\<close> with the rejected string; the only record emitted names the
  collection, none names the dependency, and the whole outcome is the same when the
  dependency is \<open>x.y\<close> instead.
\<close>

theorem C2_diagnostic_counterexample:
  "collection_deps stub_packaging (lone_universe ''c.d'') =
     (Some (InvalidSpecifier ''bad''),
      \<lparr>clog = [Log Debug ''Checking dependencies for a.b.''], missing = False\<rparr>) \<and>
   collection_deps stub_packaging (lone_universe ''c.d'') =
     collection_deps stub_packaging (lone_universe ''x.y'')"
  by (simp add: collection_deps_def lone_universe_def check_collection_def check_dep_def
      stub_packaging_def emit_def Let_def)

text \<open>
  C2, amended: whenever some declared constraint string, or the version string of some
  installed dependency, is rejected by the library, the run does not return normally:
  it raises the library's exception for such an item, \<open>InvalidSpecifier\<close> with the
  constraint string or \<open>InvalidVersion\<close> with the version string. The exception
  carries the rejected string, not the collection/dependency pair, and the code adds no
  diagnostic of its own: an item that raises leaves the state as it found it (no record,
  no flag), and every record of the aborted run is one of the two debug lines that name
  a collection only, or a record of an item that parsed.
\<close>

theorem C2_parse_error_aborts:
  assumes "\<not> parses_ok P U"
  shows "(\<exists>e. fst (collection_deps P U) = Some e \<and>
           (\<exists>entry \<in> set U. \<exists>item \<in> set (dependencies (snd entry)).
              parse_failure P U item e)) \<and>
         (fst (check_dep P U c item st) \<noteq> None \<longrightarrow> snd (check_dep P U c item st) = st) \<and>
         list_all (expected_record P U) (clog (snd (collection_deps P U)))"
proof -
  let ?st0 = "\<lparr>clog = [], missing = False\<rparr>"
  from assms obtain e where e: "fst (collections_loop P U U ?st0) = Some e"
    using collections_loop_fails [of P U U ?st0] by (auto simp: parses_ok_def)
  then have res: "collection_deps P U = (Some e, snd (collections_loop P U U ?st0))"
    by (cases "collections_loop P U U ?st0") (auto simp: collection_deps_def)
  from collections_loop_error [OF e] res
  have 1: "\<exists>e. fst (collection_deps P U) = Some e \<and>
           (\<exists>entry \<in> set U. \<exists>item \<in> set (dependencies (snd entry)).
              parse_failure P U item e)"
    by auto
  have 3: "list_all (expected_record P U) (clog (snd (collection_deps P U)))"
    unfolding list_all_iff
  proof
    fix r assume "r \<in> set (clog (snd (collection_deps P U)))"
    with res have "r \<in> set (clog (snd (collections_loop P U U ?st0)))" by simp
    from collections_loop_origin [OF this] show "expected_record P U r"
      by (simp add: expected_record_iff)
  qed
  from 1 3 check_dep_raise_keeps_state [of P U c item st] show ?thesis by blast
qed

text \<open>
  The amended C2 at the universe of the counterexample (a rejected constraint) and at a
  universe whose installed dependency has a rejected version.
\<close>

theorem C2_parse_error_aborts_witness:
  "\<not> parses_ok stub_packaging (lone_universe ''c.d'') \<and>
   fst (collection_deps stub_packaging (lone_universe ''c.d'')) = Some (InvalidSpecifier ''bad'') \<and>
   list_all (expected_record stub_packaging (lone_universe ''c.d''))
     (clog (snd (collection_deps stub_packaging (lone_universe ''c.d'')))) \<and>
   check_dep stub_packaging (lone_universe ''c.d'') ''a.b'' (''c.d'', ''bad'')
     \<lparr>clog = [Log Debug ''Checking dependencies for a.b.''], missing = False\<rparr> =
     (Some (InvalidSpecifier ''bad''),
      \<lparr>clog = [Log Debug ''Checking dependencies for a.b.''], missing = False\<rparr>) \<and>
   \<not> parses_ok stub_packaging bad_version_universe \<and>
   fst (collection_deps stub_packaging bad_version_universe) = Some (InvalidVersion ''bad'') \<and>
   list_all (expected_record stub_packaging bad_version_universe)
     (clog (snd (collection_deps stub_packaging bad_version_universe)))"
proof -
  let ?st = "\<lparr>clog = [Log Debug ''Checking dependencies for a.b.''], missing = False\<rparr>"
  have bad1: "\<not> parses_ok stub_packaging (lone_universe ''c.d'')"
    by (simp add: parses_ok_def lone_universe_def dep_parses_def stub_packaging_def)
  have bad2: "\<not> parses_ok stub_packaging bad_version_universe"
    by (simp add: parses_ok_def bad_version_universe_def dep_parses_def stub_packaging_def)
  have raises: "fst (check_dep stub_packaging (lone_universe ''c.d'') ''a.b'' (''c.d'', ''bad'') ?st)
      = Some (InvalidSpecifier ''bad'')"
    by (simp add: check_dep_def stub_packaging_def)
  from C2_parse_error_aborts [OF bad1, of "''a.b''" "(''c.d'', ''bad'')" ?st] raises
  have a: "fst (collection_deps stub_packaging (lone_universe ''c.d'')) =
        Some (InvalidSpecifier ''bad'')"
    and b: "list_all (expected_record stub_packaging (lone_universe ''c.d''))
        (clog (snd (collection_deps stub_packaging (lone_universe ''c.d''))))"
    and c: "snd (check_dep stub_packaging (lone_universe ''c.d'') ''a.b'' (''c.d'', ''bad'') ?st)
        = ?st"
    by (auto simp: lone_universe_def parse_failure_def stub_packaging_def)
  from raises c have c': "check_dep stub_packaging (lone_universe ''c.d'') ''a.b''
      (''c.d'', ''bad'') ?st = (Some (InvalidSpecifier ''bad''), ?st)"
    by (simp add: prod_eq_iff)
  from C2_parse_error_aborts [OF bad2, of "''a.b''" "(''c.d'', ''==1.0.0'')" ?st]
  have d: "fst (collection_deps stub_packaging bad_version_universe) =
        Some (InvalidVersion ''bad'')"
    and e: "list_all (expected_record stub_packaging bad_version_universe)
        (clog (snd (collection_deps stub_packaging bad_version_universe)))"
    by (auto simp: bad_version_universe_def parse_failure_def stub_packaging_def)
  from bad1 bad2 a b c' d e show ?thesis by blast
qed

text \<open>
  C3: when introspection has returned and the dry-run command exits with a non-zero
  status, the failure is logged at critical severity and is never the outcome of the
  operation: the report file is opened and decoded next, and what follows (the
  exception of the read, or the findings of the decoded report) is decided by the
  file alone.
\<close>

theorem C3_dry_run_failure_logged_and_report_read:
  assumes "introspect env = None" and "dry_run_status env \<noteq> 0"
  shows "python_deps env cm =
           (case load_report (report env) of
              Inl e \<Rightarrow> (Some e, [dry_run_failure (dry_run_status env)])
            | Inr r \<Rightarrow> (None, dry_run_failure (dry_run_status env) # report_findings r cm))"
  using assms
  by (simp add: python_deps_def subprocess_run_def dry_run_failure_def Let_def
      split: sum.splits)

text \<open>C3 at exit status 1 with a report that lists nothing to install.\<close>

theorem C3_dry_run_failure_logged_and_report_read_witness:
  "dry_run_status \<lparr>introspect = None, dry_run_status = 1,
      report = Decoded \<lparr>install = Some []\<rparr>\<rparr> \<noteq> 0 \<and>
   python_deps \<lparr>introspect = None, dry_run_status = 1,
      report = Decoded \<lparr>install = Some []\<rparr>\<rparr> False =
     (None,
      [LogExc Critical ''Failed to check python dependencies: '' (CalledProcessError 1),
       Log Note (check_mark @ '' All Python dependencies are installed.'')])"
  using C3_dry_run_failure_logged_and_report_read
    [of "\<lparr>introspect = None, dry_run_status = 1, report = Decoded \<lparr>install = Some []\<rparr>\<rparr>" False]
  by (simp add: load_report_def report_findings_def dry_run_failure_def)

text \<open>
  C4, as the specification states it: for the report with the entries \<open>x 1.0\<close> and
  \<open>y 2.0\<close> the hint message is exactly \<^verbatim>\<open>pip install x==1.0 y==2.0\<close>. No such
  record is emitted: the code wraps the command in a sentence.
\<close>

theorem C4_hint_text_counterexample:
  "Log Hint ''pip install x==1.0 y==2.0''
     \<notin> set (snd (python_deps
         \<lparr>introspect = None, dry_run_status = 0, report = Decoded two_entry_report\<rparr> False))"
  by (simp add: python_deps_def subprocess_run_def load_report_def report_findings_def
      two_entry_report_def requirement_def)

text \<open>
  C4, amended: for the report with the entries \<open>x 1.0\<close> and \<open>y 2.0\<close> the operation
  returns normally and emits, after the critical record of a failed dry run if there
  was one, the warning "Missing Python dependencies: x==1.0 and y==2.0" and then the
  hint "Try running `pip install x==1.0 y==2.0`."; a second warning, the disclaimer
  about missing collections, follows exactly when the collection phase set its flag.
\<close>

theorem C4_two_entry_report_records:
  "python_deps \<lparr>introspect = None, dry_run_status = status,
      report = Decoded two_entry_report\<rparr> cm =
     (None,
      (if status = 0 then [] else [dry_run_failure status]) @
      [Log Warning ''Missing Python dependencies: x==1.0 and y==2.0'',
       Log Hint ''Try running `pip install x==1.0 y==2.0`.''] @
      (if cm
       then [Log Warning ''Python packages required by missing collections are not included.'']
       else []))"
  by (simp add: python_deps_def subprocess_run_def load_report_def report_findings_def
      two_entry_report_def requirement_def dry_run_failure_def)

text \<open>
  C10: only the dry-run call is guarded. When introspection has returned and no file is
  at the report path, the operation raises \<open>FileNotFoundError\<close>, whether the dry run
  failed or not; the only record emitted is the critical one of a failed dry run, so
  the read error itself is neither caught nor logged, and no finding is reported.
\<close>

theorem C10_absent_report_raises:
  assumes "introspect env = None" and "report env = Absent"
  shows "python_deps env cm =
           (Some FileNotFoundError,
            if dry_run_status env = 0 then [] else [dry_run_failure (dry_run_status env)])"
  using assms
  by (simp add: python_deps_def subprocess_run_def load_report_def dry_run_failure_def)

text \<open>C10 after a dry run that exited with status 2.\<close>

theorem C10_absent_report_raises_witness:
  "report \<lparr>introspect = None, dry_run_status = 2, report = Absent\<rparr> = Absent \<and>
   python_deps \<lparr>introspect = None, dry_run_status = 2, report = Absent\<rparr> True =
     (Some FileNotFoundError,
      [LogExc Critical ''Failed to check python dependencies: '' (CalledProcessError 2)])"
  using C10_absent_report_raises
    [of "\<lparr>introspect = None, dry_run_status = 2, report = Absent\<rparr>" True]
  by (simp add: dry_run_failure_def)

section \<open>Claims about the uninstaller\<close>

lemma split_ns_x: "split_name ''ns.x'' = Some (''ns'', ''x'')"
  by (simp add: split_name_def)

lemma plain_ns_x: "plain_name ''ns.x''"
  by (simp add: plain_name_def split_ns_x)

text \<open>
  C6, as the specification states it: the metadata cleanup scans the immediate children
  of the namespace directory. In the tree where the namespace directory \<open>ns\<close> holds the
  directory \<open>ns.x-1.0.0.info\<close>, whose name starts with the collection name \<open>ns.x\<close>
  and whose suffix is \<open>.info\<close>, removing the collection \<open>ns.x\<close> returns normally
  and leaves the tree as it was: that child is not removed.
\<close>

theorem C6_namespace_child_counterexample:
  "prefix ''ns.x'' ''ns.x-1.0.0.info'' \<and>
   path_suffix ''ns.x-1.0.0.info'' = ''.info'' \<and>
   is_dir (lstat2 nested_info_tree ''ns'' ''ns.x-1.0.0.info'') \<and>
   fst (remove_collections demo_env (demo_app ''.'' ''ns.x'') (fresh nested_info_tree)) = None \<and>
   tree (snd (remove_collections demo_env (demo_app ''.'' ''ns.x'') (fresh nested_info_tree))) =
     nested_info_tree"
  by (simp add: nested_info_tree_def remove_collections_def collection_names_def demo_app_def demo_env_def
      fresh_def collection_root_def remove_one_def split_ns_x Let_def remove_collection_path_def
      say_def lstat2_def lstat1_def listing_def path_exists_def is_symlink_def rmtree_def
      remove_info_dirs_def iterdir_def is_info_dir_def is_dir_def remove_namespace_root_def
      rmdir1_def rmdir_def remove_collection_root_def remove1_def remove2_def modify_entry_def
      delete_entry_def path_suffix_def)

text \<open>
  C6, amended: for a collection name \<open>namespace.name\<close> on which the loop body does not
  raise, the cleanup scans the immediate children of the collection root (not of the
  namespace directory), and only when the namespace directory exists: the children of
  the collection root afterwards are those before, without every directory whose name
  starts with the collection name and whose suffix is \<open>.info\<close>; when the namespace
  directory does not exist the children of the collection root are unchanged. Inside
  the namespace directory no child other than the collection itself is touched.
\<close>

theorem C6_info_dirs_of_collection_root:
  assumes "plain_name cname" and "split_name cname = Some (namespace, name)"
    and "fst (remove_one root cname st) = None"
  shows "iterdir (tree (snd (remove_one root cname st))) =
           (if path_exists (lstat1 (tree st) namespace)
            then filter (\<lambda>e. \<not> is_info_dir cname (tree st) e) (iterdir (tree st))
            else iterdir (tree st)) \<and>
         (\<forall>b. b \<noteq> name \<longrightarrow>
            lstat2 (tree (snd (remove_one root cname st))) namespace b =
              lstat2 (tree st) namespace b)"
  using remove_one_iterdir [OF assms(2,3)] remove_one_lstat2 [OF assms(2)] by simp

text \<open>C6, amended, on a tree with the collection and its metadata directory installed.\<close>

theorem C6_info_dirs_of_collection_root_witness:
  "plain_name ''ns.x'' \<and>
   fst (remove_one ''/sp/ansible_collections'' ''ns.x'' (fresh installed_tree)) = None \<and>
   iterdir (tree (snd (remove_one ''/sp/ansible_collections'' ''ns.x'' (fresh installed_tree)))) =
     [''ns'', ''other''] \<and>
   lstat2 (tree (snd (remove_one ''/sp/ansible_collections'' ''ns.x'' (fresh installed_tree))))
     ''ns'' ''y'' = None"
proof -
  have ok: "fst (remove_one ''/sp/ansible_collections'' ''ns.x'' (fresh installed_tree)) = None"
    by (simp add: installed_tree_def remove_collections_def collection_names_def demo_app_def demo_env_def
      fresh_def collection_root_def remove_one_def split_ns_x Let_def remove_collection_path_def
      say_def lstat2_def lstat1_def listing_def path_exists_def is_symlink_def rmtree_def
      remove_info_dirs_def iterdir_def is_info_dir_def is_dir_def remove_namespace_root_def
      rmdir1_def rmdir_def remove_collection_root_def remove1_def remove2_def modify_entry_def
      delete_entry_def path_suffix_def)
  from C6_info_dirs_of_collection_root [OF plain_ns_x split_ns_x ok] ok plain_ns_x
  show ?thesis
    by (simp add: installed_tree_def fresh_def iterdir_def is_info_dir_def is_dir_def lstat1_def
        lstat2_def listing_def path_exists_def path_suffix_def)
qed

text \<open>
  C7: when the requested target is neither the name of the local collection nor the
  self-reference token \<open>.\<close>, the run returns at once: it emits one critical record and
  changes nothing else, so no command is handed to the external uninstaller and the
  collection tree is as it was.
\<close>

theorem C7_invalid_target_rejected:
  assumes "collection_specifier a \<noteq> collection_name a" and "collection_specifier a \<noteq> ''.''"
  shows "uninstaller_run env a st =
           (None,
            st\<lparr>ulog := ulog st @
              [Log Critical (''Only uninstallation the local collection '' @ collection_name a
                 @ '') is supported at this time.'')]\<rparr>) \<and>
         invoked (snd (uninstaller_run env a st)) = invoked st \<and>
         tree (snd (uninstaller_run env a st)) = tree st"
  using assms by (simp add: uninstaller_run_def say_def)

text \<open>C7 for the target \<open>other.thing\<close> when the local collection is \<open>ns.x\<close>.\<close>

theorem C7_invalid_target_rejected_witness:
  "collection_specifier (demo_app ''other.thing'' ''ns.x'')
     \<noteq> collection_name (demo_app ''other.thing'' ''ns.x'') \<and>
   collection_specifier (demo_app ''other.thing'' ''ns.x'') \<noteq> ''.'' \<and>
   uninstaller_run demo_env (demo_app ''other.thing'' ''ns.x'') (fresh installed_tree) =
     (None,
      \<lparr>tree = installed_tree,
       ulog = [Log Critical
         ''Only uninstallation the local collection ns.x) is supported at this time.''],
       invoked = [], namespace_roots = []\<rparr>)"
  using C7_invalid_target_rejected
    [of "demo_app ''other.thing'' ''ns.x''" demo_env "fresh installed_tree"]
  by (simp add: demo_app_def fresh_def)

text \<open>
  C8, as the specification states it: for every state of the file system the second of
  two runs raises nothing. In the tree where a regular file sits at the collection path
  \<open>ns/x\<close>, the first run raises \<open>NotADirectoryError\<close> from \<^verbatim>\<open>shutil.rmtree\<close> and
  leaves the tree as it was, and the second run on that tree raises it again.
\<close>

theorem C8_second_run_counterexample:
  "fst (remove_collections demo_env (demo_app ''.'' ''ns.x'') (fresh file_tree)) =
     Some NotADirectoryError \<and>
   tree (snd (remove_collections demo_env (demo_app ''.'' ''ns.x'') (fresh file_tree))) =
     file_tree \<and>
   fst (remove_collections demo_env (demo_app ''.'' ''ns.x'')
          (snd (remove_collections demo_env (demo_app ''.'' ''ns.x'') (fresh file_tree)))) =
     Some NotADirectoryError"
  by (simp add: file_tree_def remove_collections_def collection_names_def demo_app_def demo_env_def
      fresh_def collection_root_def remove_one_def split_ns_x Let_def remove_collection_path_def
      say_def lstat2_def lstat1_def listing_def path_exists_def is_symlink_def rmtree_def
      remove_info_dirs_def iterdir_def is_info_dir_def is_dir_def remove_namespace_root_def
      rmdir1_def rmdir_def remove_collection_root_def remove1_def remove2_def modify_entry_def
      delete_entry_def path_suffix_def)

text \<open>
  C8, amended: for collection names of the form \<open>namespace.name\<close>, whenever a run of
  "remove collections" returns without raising, a second run on the resulting tree
  raises nothing either.
\<close>

theorem C8_second_run_raises_nothing:
  assumes "list_all plain_name (collection_names a)"
    and "fst (remove_collections env a st) = None"
  shows "fst (remove_collections env a (snd (remove_collections env a st))) = None"
proof -
  let ?root = "collection_root env"
  let ?st0 = "st\<lparr>namespace_roots := []\<rparr>"
  let ?st' = "snd (remove_collections env a st)"
  obtain r st1 where loop: "names_loop ?root (collection_names a) ?st0 = (r, st1)"
    by (cases "names_loop ?root (collection_names a) ?st0") auto
  with assms(2) have r: "r = None" by (cases r) (auto simp: remove_collections_def)
  let ?st2 = "fold (remove_namespace_root ?root) (namespace_roots st1) st1"
  from loop r have st': "?st' = remove_collection_root ?root ?st2"
    by (simp add: remove_collections_def)
  have "shrunk_opt (tree ?st') (tree st1)"
    unfolding st'
    using remove_collection_root_shrinks [of ?root ?st2]
      fold_remove_namespace_root_shrinks [of ?root "namespace_roots st1" st1]
    by (rule shrunk_opt_trans)
  then have "shrunk_opt (tree (?st'\<lparr>namespace_roots := []\<rparr>))
      (tree (snd (names_loop ?root (collection_names a) ?st0)))"
    using loop by simp
  moreover have "fst (names_loop ?root (collection_names a) ?st0) = None"
    using loop r by simp
  ultimately have "fst (names_loop ?root (collection_names a) (?st'\<lparr>namespace_roots := []\<rparr>)) = None"
    by (rule names_loop_again [rotated])
  then show ?thesis by (simp add: remove_collections_fst)
qed

text \<open>C8, amended, on a tree with the collection and its metadata directory installed.\<close>

theorem C8_second_run_raises_nothing_witness:
  "list_all plain_name (collection_names (demo_app ''.'' ''ns.x'')) \<and>
   fst (remove_collections demo_env (demo_app ''.'' ''ns.x'') (fresh installed_tree)) = None \<and>
   fst (remove_collections demo_env (demo_app ''.'' ''ns.x'')
          (snd (remove_collections demo_env (demo_app ''.'' ''ns.x'') (fresh installed_tree)))) =
     None"
proof -
  have names: "list_all plain_name (collection_names (demo_app ''.'' ''ns.x''))"
    by (simp add: collection_names_def demo_app_def plain_ns_x)
  have first: "fst (remove_collections demo_env (demo_app ''.'' ''ns.x'') (fresh installed_tree))
      = None"
    by (simp add: installed_tree_def remove_collections_def collection_names_def demo_app_def demo_env_def
      fresh_def collection_root_def remove_one_def split_ns_x Let_def remove_collection_path_def
      say_def lstat2_def lstat1_def listing_def path_exists_def is_symlink_def rmtree_def
      remove_info_dirs_def iterdir_def is_info_dir_def is_dir_def remove_namespace_root_def
      rmdir1_def rmdir_def remove_collection_root_def remove1_def remove2_def modify_entry_def
      delete_entry_def path_suffix_def)
  from C8_second_run_raises_nothing [OF names first] names first show ?thesis by simp
qed

text \<open>
  C9: when every name of the removal list holds exactly one dot, every split into
  namespace and leaf succeeds and the operation never raises \<open>ValueError\<close>. For a name
  with no dot or more than one, the loop body raises \<open>ValueError\<close> and leaves the state
  as it found it (nothing is removed for that name); and a removal list holding such a
  name makes the operation raise.
\<close>

theorem C9_split_needs_exactly_one_dot:
  "(list_all (\<lambda>n. count_list n (CHR ''.'') = 1) (collection_names a) \<longrightarrow>
      list_all (\<lambda>n. split_name n \<noteq> None) (collection_names a) \<and>
      fst (remove_collections env a st) \<noteq> Some ValueError) \<and>
   (count_list cname (CHR ''.'') \<noteq> 1 \<longrightarrow>
      remove_one root cname st' = (Some ValueError, st')) \<and>
   (\<not> list_all (\<lambda>n. count_list n (CHR ''.'') = 1) (collection_names a) \<longrightarrow>
      fst (remove_collections env a st) \<noteq> None)"
  unfolding remove_collections_fst
  using all_split names_loop_no_ValueError names_loop_malformed remove_one_malformed
  by blast

text \<open>C9 for the list with the one name \<open>ns.x\<close>, and for the name \<open>a.b.c\<close>.\<close>

theorem C9_split_needs_exactly_one_dot_witness:
  "list_all (\<lambda>n. count_list n (CHR ''.'') = 1) (collection_names (demo_app ''.'' ''ns.x'')) \<and>
   fst (remove_collections demo_env (demo_app ''.'' ''ns.x'') (fresh installed_tree))
     \<noteq> Some ValueError \<and>
   count_list ''a.b.c'' (CHR ''.'') \<noteq> 1 \<and>
   remove_one ''/sp/ansible_collections'' ''a.b.c'' (fresh installed_tree) =
     (Some ValueError, fresh installed_tree) \<and>
   \<not> list_all (\<lambda>n. count_list n (CHR ''.'') = 1) (collection_names (demo_app ''.'' ''a.b.c'')) \<and>
   fst (remove_collections demo_env (demo_app ''.'' ''a.b.c'') (fresh installed_tree)) \<noteq> None"
proof -
  have good: "list_all (\<lambda>n. count_list n (CHR ''.'') = 1)
      (collection_names (demo_app ''.'' ''ns.x''))"
    by (simp add: collection_names_def demo_app_def)
  have bad: "count_list ''a.b.c'' (CHR ''.'') \<noteq> 1" by simp
  have bads: "\<not> list_all (\<lambda>n. count_list n (CHR ''.'') = 1)
      (collection_names (demo_app ''.'' ''a.b.c''))"
    by (simp add: collection_names_def demo_app_def)
  from C9_split_needs_exactly_one_dot
    [of "demo_app ''.'' ''ns.x''" demo_env "fresh installed_tree" "''a.b.c''"
      "''/sp/ansible_collections''" "fresh installed_tree"]
    good bad
  have 1: "fst (remove_collections demo_env (demo_app ''.'' ''ns.x'') (fresh installed_tree))
      \<noteq> Some ValueError"
    and 2: "remove_one ''/sp/ansible_collections'' ''a.b.c'' (fresh installed_tree) =
      (Some ValueError, fresh installed_tree)"
    by blast+
  from C9_split_needs_exactly_one_dot
    [of "demo_app ''.'' ''a.b.c''" demo_env "fresh installed_tree" "''a.b.c''"
      "''/sp/ansible_collections''" "fresh installed_tree"]
    bads
  have 3: "fst (remove_collections demo_env (demo_app ''.'' ''a.b.c'') (fresh installed_tree))
      \<noteq> None"
    by blast
  from good bad bads 1 2 3 show ?thesis by blast
qed

end
